theory Spec2Isabelle
  imports Main "HOL-Library.Sublist"
begin

section \<open>Text of the source language\<close>

text \<open>
  A source line is a \<open>string\<close>: a list of characters with codes 0..255 (the Latin-1
  range of the code units of a JavaScript string). The three character classes below are
  the ones the regular expressions and \<open>trim\<close> of the source use, restricted to that
  range:
  \<^item> \<open>\s\<close> and \<open>trim\<close>: TAB, LF, VT, FF, CR, SPACE, NBSP;
  \<^item> \<open>\w\<close>: ASCII letters, digits and the underscore;
  \<^item> \<open>.\<close>: every character but the line terminators LF and CR.
\<close>

definition is_space :: "char \<Rightarrow> bool" where
  "is_space c \<longleftrightarrow>
     c \<in> {CHR 0x09, CHR 0x0A, CHR 0x0B, CHR 0x0C, CHR 0x0D, CHR 0x20, CHR 0xA0}"

definition is_word :: "char \<Rightarrow> bool" where
  "is_word c \<longleftrightarrow>
     c \<in> set (''abcdefghijklmnopqrstuvwxyz'' @ ''ABCDEFGHIJKLMNOPQRSTUVWXYZ'' @ ''0123456789_'')"

definition is_dot :: "char \<Rightarrow> bool" where
  "is_dot c \<longleftrightarrow> c \<noteq> CHR 0x0A \<and> c \<noteq> CHR 0x0D"

text \<open>\<open>String.prototype.trim\<close>: whitespace is removed at both ends.\<close>

definition trim :: "string \<Rightarrow> string" where
  "trim s = rev (dropWhile is_space (rev (dropWhile is_space s)))"

text \<open>\<open>s.startsWith(p)\<close>.\<close>

definition startsWith :: "string \<Rightarrow> string \<Rightarrow> bool" where
  "startsWith s p \<longleftrightarrow> prefix p s"

text \<open>\<open>s.indexOf(p)\<close>: the first index at which \<open>p\<close> occurs, \<open>None\<close> for \<open>-1\<close>.\<close>

fun indexOf :: "string \<Rightarrow> string \<Rightarrow> nat option" where
  "indexOf [] p = (if p = [] then Some 0 else None)"
| "indexOf (c # cs) p =
     (if prefix p (c # cs) then Some 0 else map_option Suc (indexOf cs p))"

text \<open>\<open>code.split('\n')\<close> and \<open>lines.join('\n')\<close>.\<close>

fun split_nl :: "string \<Rightarrow> string list" where
  "split_nl [] = [[]]"
| "split_nl (c # cs) =
     (if c = CHR 0x0A then [] # split_nl cs
      else (case split_nl cs of [] \<Rightarrow> [[c]] | l # ls \<Rightarrow> (c # l) # ls))"

fun join_nl :: "string list \<Rightarrow> string" where
  "join_nl [] = []"
| "join_nl [l] = l"
| "join_nl (l # m # ls) = l @ CHR 0x0A # join_nl (m # ls)"

text \<open>\<open>s.repeat(n)\<close>.\<close>

definition repeat :: "string \<Rightarrow> nat \<Rightarrow> string" where
  "repeat s n = concat (replicate n s)"

section \<open>Regular expressions of the source\<close>

text \<open>
  The source matches lines against regular-expression literals. They are kept as data, in
  the constructs that occur: a literal text, the word boundary \<open>\b\<close>, the greedy \<open>c+\<close>
  and the lazy \<open>c*?\<close> of a character class, sequence, alternative and capture group.
\<close>

datatype rx =
    Lit string
  | WordB
  | Plus "char \<Rightarrow> bool"
  | LazyStar "char \<Rightarrow> bool"
  | Seq rx rx
  | Alt rx rx
  | Grp rx

text \<open>
  A matcher state holds the captures closed so far, the character before the current
  position (\<open>None\<close> at the start of the text) and the text from the current position on.
\<close>

type_synonym mstate = "string list \<times> char option \<times> string"

text \<open>
  Backtracking is a list of successes in the order the engine tries them: the greedy
  \<open>c+\<close> offers the longest run first, the lazy \<open>c*?\<close> the shortest.
\<close>

fun plus_greedy :: "(char \<Rightarrow> bool) \<Rightarrow> char option \<Rightarrow> string \<Rightarrow> (char option \<times> string) list" where
  "plus_greedy p pv [] = []"
| "plus_greedy p pv (c # cs) =
     (if p c then plus_greedy p (Some c) cs @ [(Some c, cs)] else [])"

fun star_lazy :: "(char \<Rightarrow> bool) \<Rightarrow> char option \<Rightarrow> string \<Rightarrow> (char option \<times> string) list" where
  "star_lazy p pv [] = [(pv, [])]"
| "star_lazy p pv (c # cs) =
     (pv, c # cs) # (if p c then star_lazy p (Some c) cs else [])"

definition word_before :: "char option \<Rightarrow> bool" where
  "word_before pv = (case pv of None \<Rightarrow> False | Some c \<Rightarrow> is_word c)"

definition word_after :: "string \<Rightarrow> bool" where
  "word_after s = (case s of [] \<Rightarrow> False | c # _ \<Rightarrow> is_word c)"

fun run :: "rx \<Rightarrow> mstate \<Rightarrow> mstate list" where
  "run (Lit l) (caps, pv, s) =
     (if l = [] then [(caps, pv, s)]
      else if prefix l s then [(caps, Some (last l), drop (length l) s)]
      else [])"
| "run WordB (caps, pv, s) =
     (if word_before pv \<noteq> word_after s then [(caps, pv, s)] else [])"
| "run (Plus p) (caps, pv, s) = map (\<lambda>(pv', s'). (caps, pv', s')) (plus_greedy p pv s)"
| "run (LazyStar p) (caps, pv, s) = map (\<lambda>(pv', s'). (caps, pv', s')) (star_lazy p pv s)"
| "run (Seq a b) st = concat (map (run b) (run a st))"
| "run (Alt a b) st = run a st @ run b st"
| "run (Grp a) (caps, pv, s) =
     map (\<lambda>(caps', pv', s'). (caps' @ [take (length s - length s') s], pv', s'))
       (run a (caps, pv, s))"

text \<open>The match starting at the current position: the first success, if any.\<close>

definition match_at :: "rx \<Rightarrow> char option \<Rightarrow> string \<Rightarrow> mstate option" where
  "match_at r pv s = (case run r ([], pv, s) of [] \<Rightarrow> None | st # _ \<Rightarrow> Some st)"

text \<open>
  \<open>s.match(r)\<close> for a regular expression without the \<open>g\<close> flag: the match at the
  leftmost position that has one; the result is its list of captures.
\<close>

fun search_from :: "rx \<Rightarrow> char option \<Rightarrow> string \<Rightarrow> string list option" where
  "search_from r pv [] = map_option fst (match_at r pv [])"
| "search_from r pv (c # cs) =
     (case match_at r pv (c # cs) of
        Some st \<Rightarrow> Some (fst st)
      | None \<Rightarrow> search_from r (Some c) cs)"

definition match :: "string \<Rightarrow> rx \<Rightarrow> string list option" where
  "match s r = search_from r None s"

text \<open>
  \<open>s.replace(r, repl)\<close> for a regular expression with the \<open>g\<close> flag: every match,
  from left to right, is replaced; after a match the scan continues behind it, and after
  an empty match it copies one character and continues behind that one.
\<close>

function replace_from :: "rx \<Rightarrow> string \<Rightarrow> char option \<Rightarrow> string \<Rightarrow> string" where
  "replace_from r repl pv s =
     (case match_at r pv s of
        None \<Rightarrow> (case s of [] \<Rightarrow> [] | c # cs \<Rightarrow> c # replace_from r repl (Some c) cs)
      | Some (caps, pv', s') \<Rightarrow>
          (if length s' < length s then repl @ replace_from r repl pv' s'
           else repl @ (case s of [] \<Rightarrow> [] | c # cs \<Rightarrow> c # replace_from r repl (Some c) cs)))"
  by pat_completeness auto
termination
  by (relation "measure (\<lambda>(r, repl, pv, s). length s)") auto

declare replace_from.simps [simp del]

definition replace :: "string \<Rightarrow> rx \<Rightarrow> string \<Rightarrow> string" where
  "replace s r repl = replace_from r repl None s"

section \<open>Line classifier\<close>

datatype line_type = Variable | Function | Loop | Conditional | Expression | Empty

record ParsedLine =
  original :: string
  cleaned :: string
  indent :: nat
  type :: line_type

text \<open>\<open>removeComment\<close>: the line is cut at the first \<open>//\<close>.\<close>

definition removeComment :: "string \<Rightarrow> string" where
  "removeComment line =
     (case indexOf line ''//'' of Some commentIndex \<Rightarrow> take commentIndex line | None \<Rightarrow> line)"

definition isFunction :: "string \<Rightarrow> bool" where
  "isFunction line = (let trimmed = trim line in startsWith trimmed ''plot '')"

definition isConditional :: "string \<Rightarrow> bool" where
  "isConditional line =
     (let trimmed = trim line in startsWith trimmed ''if '' \<or> trimmed = ''else:'')"

text \<open>
  \<open>getIndent\<close>: the length of the match of \<open>^(\s*)\<close>, which always matches and takes
  the longest run of whitespace at the start of the line.
\<close>

definition getIndent :: "string \<Rightarrow> nat" where
  "getIndent line = length (takeWhile is_space line)"

definition isEmpty :: "string \<Rightarrow> bool" where
  "isEmpty line = (let trimmed = trim line in trimmed = [] \<or> startsWith trimmed ''//'')"

definition parseLine :: "string \<Rightarrow> ParsedLine" where
  "parseLine line =
     (let indent = getIndent line;
          cleaned = trim (removeComment line)
      in if isEmpty line then
           \<lparr>original = line, cleaned = [], indent = indent, type = Empty\<rparr>
         else if isFunction cleaned then
           \<lparr>original = line, cleaned = cleaned, indent = indent, type = Function\<rparr>
         else if isConditional cleaned then
           \<lparr>original = line, cleaned = cleaned, indent = indent, type = Conditional\<rparr>
         else if CHR ''='' \<in> set cleaned then
           \<lparr>original = line, cleaned = cleaned, indent = indent, type = Variable\<rparr>
         else
           \<lparr>original = line, cleaned = cleaned, indent = indent, type = Expression\<rparr>)"

text \<open>The constructor splits the code at line feeds; \<open>parse\<close> classifies every line.\<close>

definition parse :: "string \<Rightarrow> ParsedLine list" where
  "parse code = map parseLine (split_nl code)"

section \<open>Translator\<close>

text \<open>The regular expressions of the translator and of \<open>extractLoop\<close>.\<close>

definition rx_function :: rx where
  "rx_function =
     Seq (Alt (Lit ''plot'') (Lit ''plan''))
      (Seq (Plus is_space)
        (Seq (Grp (Plus is_word))
          (Seq (Lit ''('') (Seq (Grp (LazyStar is_dot)) (Lit ''):'')))))"

definition rx_loop :: rx where
  "rx_loop = Seq (Lit ''loop'') (Seq (Plus is_space) (Seq (Grp (Plus is_word)) (Lit '':'')))"

definition rx_if :: rx where
  "rx_if = Seq (Lit ''if'') (Seq (Plus is_space) (Seq (Grp (Plus is_dot)) (Lit '':'')))"

text \<open>\<open>\bkw(\<close> and the like, \<open>\bkw\b\<close>, and \<open>\bkw\s+\<close>.\<close>

definition rx_kw_lit :: "string \<Rightarrow> string \<Rightarrow> rx" where
  "rx_kw_lit kw l = Seq WordB (Lit (kw @ l))"

definition rx_kw :: "string \<Rightarrow> rx" where
  "rx_kw kw = Seq WordB (Seq (Lit kw) WordB)"

definition rx_kw_spaces :: "string \<Rightarrow> rx" where
  "rx_kw_spaces kw = Seq WordB (Seq (Lit kw) (Plus is_space))"

definition convertFunction :: "string \<Rightarrow> string \<Rightarrow> string" where
  "convertFunction line ind =
     (case match line rx_function of
        Some [name, params] \<Rightarrow> ind @ ''function '' @ name @ ''('' @ params @ '') {''
      | _ \<Rightarrow> ind @ ''// ERROR: Invalid function syntax'')"

definition extractLoop :: "string \<Rightarrow> (string \<times> string) option" where
  "extractLoop line =
     (case match line rx_loop of
        Some [collection] \<Rightarrow> Some (''item'', collection)
      | _ \<Rightarrow> None)"

definition convertLoop :: "string \<Rightarrow> string \<Rightarrow> string" where
  "convertLoop line ind =
     (case extractLoop line of
        Some (variable, collection) \<Rightarrow>
          ind @ ''for (const '' @ variable @ '' of '' @ collection @ '') {''
      | None \<Rightarrow> ind @ ''// ERROR: Invalid loop syntax'')"

definition convertConditional :: "string \<Rightarrow> string \<Rightarrow> string" where
  "convertConditional line ind =
     (if line = ''else:'' then ind @ ''} else {''
      else (case match line rx_if of
              Some [cond] \<Rightarrow> ind @ ''if ('' @ cond @ '') {''
            | _ \<Rightarrow> ind @ ''// ERROR: Invalid conditional syntax''))"

text \<open>
  The text of a variable line after its fourteen replacements, in the order of the source.
\<close>

definition substVariable :: "string \<Rightarrow> string" where
  "substVariable line =
     (let converted = line;
          converted = replace converted (rx_kw_lit ''theory'' ''('') ''Number('';
          converted = replace converted (rx_kw_lit ''risk'' ''('') ''parseFloat('';
          converted = replace converted (rx_kw_lit ''ghost'' ''('') ''String('';
          converted = replace converted (rx_kw_lit ''money'' ''('') ''Boolean('';
          converted = replace converted (rx_kw_lit ''island'' ''['') ''['';
          converted = replace converted (rx_kw_lit ''girl'' ''{'') ''{'';
          converted = replace converted (rx_kw_lit ''mission'' ''('') ''['';
          converted = replace converted (rx_kw_lit ''weapon'' ''['') ''['';
          converted = replace converted (rx_kw ''truestory'') ''true'';
          converted = replace converted (rx_kw ''falsestory'') ''false'';
          converted = replace converted (rx_kw ''truth'') ''true'';
          converted = replace converted (rx_kw ''lie'') ''false'';
          converted = replace converted (rx_kw ''universe'') ''null'';
          converted = replace converted (rx_kw ''alibi'') ''null''
      in converted)"

definition convertVariable :: "string \<Rightarrow> string \<Rightarrow> string" where
  "convertVariable line ind = ind @ ''const '' @ substVariable line @ '';''"

text \<open>The text of an expression line after its nine replacements.\<close>

definition substExpression :: "string \<Rightarrow> string" where
  "substExpression line =
     (let converted = line;
          converted = replace converted (rx_kw_lit ''files'' ''('') ''console.log('';
          converted = replace converted (rx_kw_spaces ''suicide'') ''return '';
          converted = replace converted (rx_kw ''escape'') ''break'';
          converted = replace converted (rx_kw_lit ''theory'' ''('') ''Number('';
          converted = replace converted (rx_kw_lit ''risk'' ''('') ''parseFloat('';
          converted = replace converted (rx_kw_lit ''ghost'' ''('') ''String('';
          converted = replace converted (rx_kw_lit ''money'' ''('') ''Boolean('';
          converted = replace converted (rx_kw ''truestory'') ''true'';
          converted = replace converted (rx_kw ''falsestory'') ''false''
      in converted)"

definition convertExpression :: "string \<Rightarrow> string \<Rightarrow> string" where
  "convertExpression line ind =
     (let converted = substExpression line
      in if trim line = ''}'' then ind @ ''}'' else ind @ converted @ '';'')"

text \<open>
  One output line per classified line. \<open>line.indent / 2\<close> is a fraction when the indent
  is odd and \<open>repeat\<close> truncates it, hence \<open>div\<close>.
\<close>

definition convertLine :: "ParsedLine \<Rightarrow> string" where
  "convertLine line =
     (if type line = Empty then []
      else
        let indentation = repeat ''  '' (indent line div 2)
        in (case type line of
              Function \<Rightarrow> convertFunction (cleaned line) indentation
            | Loop \<Rightarrow> convertLoop (cleaned line) indentation
            | Conditional \<Rightarrow> convertConditional (cleaned line) indentation
            | Variable \<Rightarrow> convertVariable (cleaned line) indentation
            | Expression \<Rightarrow> convertExpression (cleaned line) indentation
            | Empty \<Rightarrow> []))"

definition jsLines :: "ParsedLine list \<Rightarrow> string list" where
  "jsLines parsedLines = map convertLine parsedLines"

definition toJavaScript :: "ParsedLine list \<Rightarrow> string" where
  "toJavaScript parsedLines = join_nl (jsLines parsedLines)"

section \<open>Executor\<close>

text \<open>
  The values a scope can hold: the static functions of \<open>Runtime\<close> (by name), booleans,
  \<open>null\<close>, the host console, \<open>undefined\<close> and any other value of the caller.
\<close>

datatype jsvalue =
  RuntimeFn string | JSBool bool | JSNull | JSUndefined | Console | Other string

text \<open>
  A scope object \<open>{ [key: string]: any }\<close> is the list of its properties in the order
  of their creation. Assigning to a property replaces its value where it stands and
  appends a new property at the end.
\<close>

type_synonym scope = "(string \<times> jsvalue) list"

fun setProperty :: "scope \<Rightarrow> string \<Rightarrow> jsvalue \<Rightarrow> scope" where
  "setProperty [] k v = [(k, v)]"
| "setProperty ((k', v') # ps) k v =
     (if k' = k then (k', v) # ps else (k', v') # setProperty ps k v)"

text \<open>
  The host enumerates the properties of an object with the array indices first, in
  ascending order, and the other keys behind them in the order of their creation. An
  array index is the decimal text, without a leading zero, of a number up to
  \<open>2\<^sup>3\<^sup>2 - 2\<close>.
\<close>

definition is_digit :: "char \<Rightarrow> bool" where
  "is_digit c \<longleftrightarrow> c \<in> set ''0123456789''"

definition index_value :: "string \<Rightarrow> nat" where
  "index_value k = foldl (\<lambda>n c. 10 * n + (of_char c - 48)) 0 k"

definition is_array_index :: "string \<Rightarrow> bool" where
  "is_array_index k \<longleftrightarrow>
     k \<noteq> [] \<and> list_all is_digit k \<and> (k = ''0'' \<or> hd k \<noteq> CHR ''0'') \<and>
     index_value k \<le> 4294967294"

definition entries :: "scope \<Rightarrow> (string \<times> jsvalue) list" where
  "entries obj =
     sort_key (\<lambda>(k, v). index_value k) (filter (\<lambda>(k, v). is_array_index k) obj)
     @ filter (\<lambda>(k, v). \<not> is_array_index k) obj"

text \<open>\<open>Object.keys(obj)\<close> and \<open>Object.values(obj)\<close>.\<close>

definition keys :: "scope \<Rightarrow> string list" where
  "keys obj = map fst (entries obj)"

definition values_of :: "scope \<Rightarrow> jsvalue list" where
  "values_of obj = map snd (entries obj)"

text \<open>
  The object literal \<open>{ ...a, ...b }\<close>: the properties of \<open>a\<close>, then those of \<open>b\<close>, each
  in the order of enumeration, are assigned to an empty object.
\<close>

definition spread :: "scope \<Rightarrow> scope \<Rightarrow> scope" where
  "spread a b = fold (\<lambda>(k, v) obj. setProperty obj k v) (entries a @ entries b) []"

record Executor =
  globalScope :: scope

definition setupGlobalScope :: "Executor \<Rightarrow> Executor" where
  "setupGlobalScope this =
     (let g = globalScope this;
          g = setProperty g ''theory'' (RuntimeFn ''theory'');
          g = setProperty g ''risk'' (RuntimeFn ''risk'');
          g = setProperty g ''ghost'' (RuntimeFn ''ghost'');
          g = setProperty g ''money'' (RuntimeFn ''money'');
          g = setProperty g ''island'' (RuntimeFn ''island'');
          g = setProperty g ''girl'' (RuntimeFn ''girl'');
          g = setProperty g ''mission'' (RuntimeFn ''mission'');
          g = setProperty g ''secret'' (RuntimeFn ''secret'');
          g = setProperty g ''weapon'' (RuntimeFn ''weapon'');
          g = setProperty g ''files'' (RuntimeFn ''files'');
          g = setProperty g ''truestory'' (JSBool True);
          g = setProperty g ''falsestory'' (JSBool False);
          g = setProperty g ''truth'' (JSBool True);
          g = setProperty g ''lie'' (JSBool False);
          g = setProperty g ''universe'' JSNull;
          g = setProperty g ''alibi'' JSNull;
          g = setProperty g ''console'' Console
      in this\<lparr>globalScope := g\<rparr>)"

text \<open>The constructor: the scope starts empty and is set up.\<close>

definition new_Executor :: Executor where
  "new_Executor = setupGlobalScope \<lparr>globalScope = []\<rparr>"

text \<open>
  The constructor \<open>Function\<close> belongs to the host, not to the program, and is a
  parameter of the model. Given the parameter texts and the body it either throws, which
  is \<open>None\<close> (a parameter text or a body that does not parse), or yields a function;
  of that function the model keeps what a call does first, which is to bind the
  parameters: the arguments are mapped to the bindings under which the body starts.
\<close>

type_synonym host_function = "jsvalue list \<Rightarrow> string \<rightharpoonup> jsvalue"

type_synonym host_Function = "string list \<Rightarrow> string \<Rightarrow> host_function option"

datatype exec_error = SyntaxError

text \<open>
  \<open>executeWithScope\<close> builds the merged scope and hands the constructor its keys as
  parameter texts, and the function its values, in the same order, as arguments. What
  the constructor throws is logged and thrown again. The result \<open>Inr\<close> holds the
  bindings under which the code starts to run; what the code does then, also throwing,
  is not part of the model.
\<close>

definition executeWithScope ::
  "host_Function \<Rightarrow> Executor \<Rightarrow> string \<Rightarrow> scope \<Rightarrow> exec_error + (string \<rightharpoonup> jsvalue)" where
  "executeWithScope newFunction this jsCode customScope =
     (let mergedScope = spread (globalScope this) customScope
      in case newFunction (keys mergedScope) jsCode of
           None \<Rightarrow> Inl SyntaxError
         | Some func \<Rightarrow> Inr (func (values_of mergedScope)))"

text \<open>
  What is known of every host: parameter texts that are plain names, a letter, \<open>_\<close> or
  \<open>$\<close> followed by letters, digits, \<open>_\<close> and \<open>$\<close>, are the parameters in their order.
  A call binds each to the argument at its position, to \<open>undefined\<close> where the
  arguments end before, and a name that stands twice to the argument of its last
  position.
\<close>

definition is_plain_name :: "string \<Rightarrow> bool" where
  "is_plain_name k \<longleftrightarrow>
     (case k of
        [] \<Rightarrow> False
      | c # cs \<Rightarrow> (is_word c \<or> c = CHR ''$'') \<and> \<not> is_digit c \<and>
                list_all (\<lambda>c. is_word c \<or> c = CHR ''$'') cs)"

definition positional :: "string list \<Rightarrow> host_function" where
  "positional names args =
     map_of (rev (zip names (args @ replicate (length names - length args) JSUndefined)))"

definition binds_plain_names :: "host_Function \<Rightarrow> bool" where
  "binds_plain_names newFunction \<longleftrightarrow>
     (\<forall>names body func. list_all is_plain_name names \<longrightarrow>
        newFunction names body = Some func \<longrightarrow> func = positional names)"

section \<open>Shape of a function header\<close>

text \<open>
  The pattern \<open><def-keyword> <name>(<params>):\<close> of the specification, said without the
  matcher: somewhere in the line stands \<open>plot\<close> or \<open>plan\<close>, whitespace, a name of word
  characters, and a parameter text between \<open>(\<close> and \<open>):\<close> on one line.
\<close>

definition function_header :: "string \<Rightarrow> bool" where
  "function_header line \<longleftrightarrow>
     (\<exists>pre kw ws name params post.
        line = pre @ kw @ ws @ name @ ''('' @ params @ ''):'' @ post \<and>
        (kw = ''plot'' \<or> kw = ''plan'') \<and>
        ws \<noteq> [] \<and> list_all is_space ws \<and>
        name \<noteq> [] \<and> list_all is_word name \<and>
        list_all is_dot params)"

section \<open>Identifiers and keyword rules\<close>

text \<open>
  An identifier is a run of word characters that no word character precedes or follows.
  The two tests below say that a text does not end, or does not start, with a word
  character.
\<close>

definition ends_with_word :: "string \<Rightarrow> bool" where
  "ends_with_word s \<longleftrightarrow> s \<noteq> [] \<and> is_word (last s)"

definition is_identifier :: "string \<Rightarrow> bool" where
  "is_identifier w \<longleftrightarrow> w \<noteq> [] \<and> list_all is_word w"

text \<open>The keywords of the seventeen replacement rules of the translator.\<close>

definition rule_keywords :: "string list" where
  "rule_keywords =
     [''theory'', ''risk'', ''ghost'', ''money'', ''island'', ''girl'', ''mission'', ''weapon'',
      ''truestory'', ''falsestory'', ''truth'', ''lie'', ''universe'', ''alibi'',
      ''files'', ''suicide'', ''escape'']"

text \<open>
  What the proofs use of a replacement rule for the keyword \<open>kw\<close>: a match starts where
  no word character precedes, the identifier at its start is \<open>kw\<close>, it takes at least
  one character, it does not look beyond a text that ends with a non-word character
  and is followed by a word character, and of the character before it only whether it
  is a word character matters.
\<close>

definition keyword_rule :: "rx \<Rightarrow> string \<Rightarrow> bool" where
  "keyword_rule r kw \<longleftrightarrow>
     (\<forall>pv s caps pv' s'. match_at r pv s = Some (caps, pv', s') \<longrightarrow>
        \<not> word_before pv \<and> takeWhile is_word s = kw \<and> kw \<noteq> [] \<and> length s' < length s) \<and>
     (\<forall>pv p x. p \<noteq> [] \<longrightarrow> \<not> is_word (last p) \<longrightarrow> word_after x \<longrightarrow>
        match_at r pv (p @ x) = map_option (\<lambda>(c, pv', s'). (c, pv', s' @ x)) (match_at r pv p)) \<and>
     (\<forall>pv pv2 s. word_before pv = word_before pv2 \<longrightarrow> match_at r pv s = match_at r pv2 s)"

text \<open>
  A replacement keeps the end of a text: where a match reaches the end of a text that
  ends with a non-word character, the replacement text ends with one too.
\<close>

definition keeps_end :: "rx \<Rightarrow> string \<Rightarrow> bool" where
  "keeps_end r repl \<longleftrightarrow>
     repl \<noteq> [] \<and>
     (\<forall>pv s caps pv'. match_at r pv s = Some (caps, pv', []) \<longrightarrow> \<not> is_word (last s) \<longrightarrow>
        \<not> is_word (last repl))"

text \<open>
  The text \<open>s\<close> is the identifier \<open>w\<close> between \<open>pre\<close> and \<open>post\<close>, and \<open>w\<close> is the whole
  identifier there.
\<close>

definition splits_at :: "string \<Rightarrow> string \<Rightarrow> string \<Rightarrow> string \<Rightarrow> bool" where
  "splits_at w s pre post \<longleftrightarrow>
     s = pre @ w @ post \<and> \<not> ends_with_word pre \<and> \<not> word_after post"

text \<open>
  The replacements of a variable line and of an expression line as lists of rules, each a
  pattern with its replacement text, in the order of the source; the proofs about single
  keywords walk along these lists.
\<close>

definition variable_rules :: "(rx \<times> string) list" where
  "variable_rules =
     [(rx_kw_lit ''theory'' ''('', ''Number(''),
      (rx_kw_lit ''risk'' ''('', ''parseFloat(''),
      (rx_kw_lit ''ghost'' ''('', ''String(''),
      (rx_kw_lit ''money'' ''('', ''Boolean(''),
      (rx_kw_lit ''island'' ''['', ''[''),
      (rx_kw_lit ''girl'' ''{'', ''{''),
      (rx_kw_lit ''mission'' ''('', ''[''),
      (rx_kw_lit ''weapon'' ''['', ''[''),
      (rx_kw ''truestory'', ''true''),
      (rx_kw ''falsestory'', ''false''),
      (rx_kw ''truth'', ''true''),
      (rx_kw ''lie'', ''false''),
      (rx_kw ''universe'', ''null''),
      (rx_kw ''alibi'', ''null'')]"

definition expression_rules :: "(rx \<times> string) list" where
  "expression_rules =
     [(rx_kw_lit ''files'' ''('', ''console.log(''),
      (rx_kw_spaces ''suicide'', ''return ''),
      (rx_kw ''escape'', ''break''),
      (rx_kw_lit ''theory'' ''('', ''Number(''),
      (rx_kw_lit ''risk'' ''('', ''parseFloat(''),
      (rx_kw_lit ''ghost'' ''('', ''String(''),
      (rx_kw_lit ''money'' ''('', ''Boolean(''),
      (rx_kw ''truestory'', ''true''),
      (rx_kw ''falsestory'', ''false'')]"

definition apply_rules :: "(rx \<times> string) list \<Rightarrow> string \<Rightarrow> string" where
  "apply_rules rs s = foldl (\<lambda>converted (r, repl). replace converted r repl) s rs"

text \<open>A rule that leaves the identifier \<open>w\<close> alone: a keyword rule for another keyword.\<close>

definition rule_keeps :: "string \<Rightarrow> rx \<times> string \<Rightarrow> bool" where
  "rule_keeps w rule \<longleftrightarrow>
     (\<exists>kw. keyword_rule (fst rule) kw \<and> keeps_end (fst rule) (snd rule) \<and> w \<noteq> kw)"

section \<open>Properties of the text functions\<close>





lemma trim_all_space: "(\<forall>c\<in>set s. is_space c) \<Longrightarrow> trim s = []"
proof -
  assume "\<forall>c\<in>set s. is_space c"
  then have e: "dropWhile is_space s = []" by simp
  show ?thesis unfolding trim_def e by simp
qed



text \<open>The comment is cut off at the end: what is left is a prefix of the line.\<close>

lemma indexOf_le: "indexOf s p = Some i \<Longrightarrow> i \<le> length s"
  by (induction s arbitrary: i) (auto split: if_splits)

lemma removeComment_prefix: "prefix (removeComment line) line"
  by (simp add: removeComment_def take_is_prefix split: option.splits)

section \<open>Properties of the classifier\<close>

lemma parseLine_type:
  "type (parseLine line) =
     (if isEmpty line then Empty
      else if isFunction (trim (removeComment line)) then Function
      else if isConditional (trim (removeComment line)) then Conditional
      else if CHR ''='' \<in> set (trim (removeComment line)) then Variable
      else Expression)"
  by (simp add: parseLine_def Let_def)

lemma parseLine_cleaned:
  "cleaned (parseLine line) = (if isEmpty line then [] else trim (removeComment line))"
  by (simp add: parseLine_def Let_def)

lemma parseLine_indent: "indent (parseLine line) = getIndent line"
  by (simp add: parseLine_def Let_def)




text \<open>
  C7: a line of whitespace only, and a line whose trimmed text starts with the comment
  marker, is classified as empty, and the translator emits the empty line for it.
\<close>

theorem blank_and_comment_lines_empty:
  assumes "(\<forall>c\<in>set line. is_space c) \<or> startsWith (trim line) ''//''"
  shows "type (parseLine line) = Empty \<and> convertLine (parseLine line) = []
         \<and> toJavaScript [parseLine line] = []"
proof -
  have "isEmpty line" using assms trim_all_space[of line] by (auto simp: isEmpty_def)
  then have "type (parseLine line) = Empty" by (simp add: parseLine_type)
  then show ?thesis by (simp add: convertLine_def toJavaScript_def jsLines_def)
qed

theorem blank_and_comment_lines_empty_witness:
  "list_all is_space ''   '' \<and> type (parseLine ''   '') = Empty
   \<and> convertLine (parseLine ''   '') = []
   \<and> startsWith (trim ''  // note'') ''//'' \<and> type (parseLine ''  // note'') = Empty
   \<and> convertLine (parseLine ''  // note'') = []"
proof -
  have h1: "\<forall>c\<in>set ''   ''. is_space c" by (simp add: is_space_def)
  have h2: "startsWith (trim ''  // note'') ''//''"
    by (simp add: trim_def is_space_def startsWith_def)
  show ?thesis
    using blank_and_comment_lines_empty[of "''   ''"] blank_and_comment_lines_empty[of "''  // note''"] h1 h2
    by (simp add: list_all_iff)
qed

text \<open>
  C10: the classifier gives every line one of the categories empty, function, conditional,
  variable and expression. The category loop is never assigned, so no line of a parsed
  program reaches the loop branch of the translator.
\<close>

theorem loop_never_assigned:
  "type (parseLine line) \<in> {Empty, Function, Conditional, Variable, Expression}
   \<and> Loop \<notin> type ` set (parse code)
   \<and> convertLine (parseLine line) =
       (let indentation = repeat ''  '' (indent (parseLine line) div 2);
            text = cleaned (parseLine line)
        in case type (parseLine line) of
             Empty \<Rightarrow> []
           | Function \<Rightarrow> convertFunction text indentation
           | Conditional \<Rightarrow> convertConditional text indentation
           | Variable \<Rightarrow> convertVariable text indentation
           | _ \<Rightarrow> convertExpression text indentation)"
proof -
  have a: "\<And>l. type (parseLine l) \<in> {Empty, Function, Conditional, Variable, Expression}"
    by (simp add: parseLine_type)
  have b: "\<And>l. type (parseLine l) \<noteq> Loop"
    by (simp add: parseLine_type)
  have "Loop \<notin> type ` set (parse code)"
  proof
    assume "Loop \<in> type ` set (parse code)"
    then obtain l where "Loop = type (parseLine l)" unfolding parse_def by auto
    with b[of l] show False by simp
  qed
  moreover have "convertLine (parseLine line) =
       (let indentation = repeat ''  '' (indent (parseLine line) div 2);
            text = cleaned (parseLine line)
        in case type (parseLine line) of
             Empty \<Rightarrow> []
           | Function \<Rightarrow> convertFunction text indentation
           | Conditional \<Rightarrow> convertConditional text indentation
           | Variable \<Rightarrow> convertVariable text indentation
           | _ \<Rightarrow> convertExpression text indentation)"
    using b[of line] by (cases "type (parseLine line)") (simp_all add: convertLine_def Let_def)
  ultimately show ?thesis using a by blast
qed

section \<open>Properties of the matcher\<close>

lemma plus_greedy_sound:
  "(pv', s') \<in> set (plus_greedy p pv s) \<Longrightarrow>
     \<exists>u. s = u @ s' \<and> u \<noteq> [] \<and> list_all p u \<and> pv' = Some (last u)"
proof (induction s arbitrary: pv)
  case Nil
  then show ?case by simp
next
  case (Cons c cs)
  from Cons.prems have pc: "p c" by (auto split: if_splits)
  from Cons.prems pc consider "(pv', s') \<in> set (plus_greedy p (Some c) cs)" | "pv' = Some c" "s' = cs"
    by auto
  then show ?case
  proof cases
    case 1
    from Cons.IH[OF 1] obtain u where "cs = u @ s'" "u \<noteq> []" "list_all p u" "pv' = Some (last u)"
      by blast
    then have "c # cs = (c # u) @ s' \<and> c # u \<noteq> [] \<and> list_all p (c # u) \<and> pv' = Some (last (c # u))"
      using pc by simp
    then show ?thesis by blast
  next
    case 2
    then have "c # cs = [c] @ s' \<and> [c] \<noteq> [] \<and> list_all p [c] \<and> pv' = Some (last [c])"
      using pc by simp
    then show ?thesis by blast
  qed
qed

lemma star_lazy_sound:
  "(pv', s') \<in> set (star_lazy p pv s) \<Longrightarrow>
     \<exists>u. s = u @ s' \<and> list_all p u \<and> pv' = (if u = [] then pv else Some (last u))"
proof (induction s arbitrary: pv)
  case Nil
  then show ?case by simp
next
  case (Cons c cs)
  from Cons.prems consider "pv' = pv" "s' = c # cs" | "p c" "(pv', s') \<in> set (star_lazy p (Some c) cs)"
    by (auto split: if_splits)
  then show ?case
  proof cases
    case 1
    then have "c # cs = [] @ s' \<and> list_all p [] \<and> pv' = (if [] = ([]::string) then pv else Some (last []))"
      by simp
    then show ?thesis by blast
  next
    case 2
    from Cons.IH[OF 2(2)] obtain u where u: "cs = u @ s'" "list_all p u"
      "pv' = (if u = [] then Some c else Some (last u))" by blast
    then have "c # cs = (c # u) @ s' \<and> list_all p (c # u)
        \<and> pv' = (if c # u = [] then pv else Some (last (c # u)))"
      using 2(1) by simp
    then show ?thesis by blast
  qed
qed

text \<open>
  Every success of the matcher stands at a suffix of the text it started from, and its
  captures are made of characters of that text.
\<close>

lemma run_sound:
  "(caps', pv', s') \<in> set (run r (caps, pv, s)) \<Longrightarrow>
     (\<exists>u. s = u @ s') \<and> set (concat caps') \<subseteq> set (concat caps) \<union> set s"
proof (induction r arbitrary: caps pv s caps' pv' s')
  case (Lit l)
  show ?case
  proof (cases "l = []")
    case True
    then show ?thesis using Lit by simp
  next
    case False
    then have p: "prefix l s" and e: "caps' = caps" "s' = drop (length l) s"
      using Lit by (auto split: if_splits)
    have "s = take (length l) s @ s'" using e by simp
    then show ?thesis using e by blast
  qed
next
  case WordB
  then show ?case by (auto split: if_splits)
next
  case (Plus p)
  then have "(pv', s') \<in> set (plus_greedy p pv s)" and "caps' = caps" by auto
  then show ?case using plus_greedy_sound[of pv' s' p pv s] by blast
next
  case (LazyStar p)
  then have "(pv', s') \<in> set (star_lazy p pv s)" and "caps' = caps" by auto
  then show ?case using star_lazy_sound[of pv' s' p pv s] by blast
next
  case (Seq a b)
  from Seq.prems obtain c1 p1 s1 where
    m1: "(c1, p1, s1) \<in> set (run a (caps, pv, s))" and m2: "(caps', pv', s') \<in> set (run b (c1, p1, s1))"
    by auto
  from Seq.IH(1)[OF m1] obtain u1 where u1: "s = u1 @ s1" and c1: "set (concat c1) \<subseteq> set (concat caps) \<union> set s"
    by blast
  from Seq.IH(2)[OF m2] obtain u2 where u2: "s1 = u2 @ s'" and c2: "set (concat caps') \<subseteq> set (concat c1) \<union> set s1"
    by blast
  have "s = (u1 @ u2) @ s'" using u1 u2 by simp
  moreover have "set s1 \<subseteq> set s" using u1 by auto
  ultimately show ?case using c1 c2 by blast
next
  case (Alt a b)
  from Alt.prems consider "(caps', pv', s') \<in> set (run a (caps, pv, s))"
    | "(caps', pv', s') \<in> set (run b (caps, pv, s))" by auto
  then show ?case using Alt.IH by cases blast+
next
  case (Grp a)
  from Grp.prems obtain c1 where
    m: "(c1, pv', s') \<in> set (run a (caps, pv, s))" and c: "caps' = c1 @ [take (length s - length s') s]"
    by auto
  from Grp.IH[OF m] have "\<exists>u. s = u @ s'" and "set (concat c1) \<subseteq> set (concat caps) \<union> set s"
    by blast+
  moreover have "set (take (length s - length s') s) \<subseteq> set s" by (rule set_take_subset)
  ultimately show ?case using c by auto
qed

lemma match_at_sound:
  assumes "match_at r pv s = Some (caps', pv', s')"
  shows "(\<exists>u. s = u @ s') \<and> set (concat caps') \<subseteq> set s"
proof -
  have "(caps', pv', s') \<in> set (run r ([], pv, s))"
    using assms by (auto simp: match_at_def split: list.splits)
  from run_sound[OF this] show ?thesis by simp
qed

lemma search_from_chars:
  "search_from r pv s = Some caps \<Longrightarrow> set (concat caps) \<subseteq> set s"
proof (induction s arbitrary: pv)
  case Nil
  then obtain st where "match_at r pv [] = Some st" "caps = fst st" by auto
  then show ?case using match_at_sound[of r pv "[]" "fst st" "fst (snd st)" "snd (snd st)"] by simp
next
  case (Cons c cs)
  show ?case
  proof (cases "match_at r pv (c # cs)")
    case None
    then have "search_from r (Some c) cs = Some caps" using Cons.prems by simp
    from Cons.IH[OF this] show ?thesis by auto
  next
    case (Some st)
    then have "caps = fst st" using Cons.prems by simp
    then show ?thesis
      using match_at_sound[of r pv "c # cs" "fst st" "fst (snd st)" "snd (snd st)"] Some by simp
  qed
qed

lemma match_chars: "match s r = Some caps \<Longrightarrow> set (concat caps) \<subseteq> set s"
  unfolding match_def by (rule search_from_chars)

text \<open>A replacement only puts characters of the replacement text into the line.\<close>

lemma replace_from_chars: "set (replace_from r repl pv s) \<subseteq> set s \<union> set repl"
proof (induction r repl pv s rule: replace_from.induct)
  case (1 r repl pv s)
  show ?case
  proof (cases "match_at r pv s")
    case None
    show ?thesis
    proof (cases s)
      case Nil
      then show ?thesis using None by (subst replace_from.simps) simp
    next
      case (Cons c cs)
      have "set (replace_from r repl (Some c) cs) \<subseteq> set cs \<union> set repl"
        using "1.IH"(1)[OF None Cons] .
      then show ?thesis using None Cons by (subst replace_from.simps) auto
    qed
  next
    case (Some st)
    obtain caps' pv' s' where st: "st = (caps', pv', s')" by (cases st) auto
    have suf: "set s' \<subseteq> set s" using match_at_sound[of r pv s caps' pv' s'] Some st by auto
    show ?thesis
    proof (cases "length s' < length s")
      case True
      have "set (replace_from r repl pv' s') \<subseteq> set s' \<union> set repl"
        using "1.IH"(2)[OF Some[unfolded st] refl refl True] .
      then show ?thesis using Some st True suf by (subst replace_from.simps) auto
    next
      case False
      show ?thesis
      proof (cases s)
        case Nil
        then show ?thesis using Some st False by (subst replace_from.simps) simp
      next
        case (Cons c cs)
        have "set (replace_from r repl (Some c) cs) \<subseteq> set cs \<union> set repl"
          using "1.IH"(3)[OF Some[unfolded st] refl refl False Cons] .
        then show ?thesis using Some st False Cons by (subst replace_from.simps) auto
      qed
    qed
  qed
qed

lemma replace_chars: "set (replace s r repl) \<subseteq> set s \<union> set repl"
  unfolding replace_def by (rule replace_from_chars)

lemma split_nl_nonempty: "split_nl s \<noteq> []"
  by (induction s) (auto split: list.splits)

lemma split_nl_no_newline: "l \<in> set (split_nl s) \<Longrightarrow> CHR 0x0A \<notin> set l"
proof (induction s arbitrary: l)
  case Nil
  then show ?case by simp
next
  case (Cons c cs)
  show ?case
  proof (cases "c = CHR 0x0A")
    case True
    then show ?thesis using Cons by auto
  next
    case False
    obtain x xs where sp: "split_nl cs = x # xs"
      using split_nl_nonempty[of cs] by (cases "split_nl cs") auto
    then have "l = c # x \<or> l \<in> set xs" using Cons.prems False by simp
    moreover have "CHR 0x0A \<notin> set x" using Cons.IH[of x] sp by simp
    moreover have "l \<in> set xs \<Longrightarrow> CHR 0x0A \<notin> set l" using Cons.IH[of l] sp by simp
    ultimately show ?thesis using False by auto
  qed
qed

lemma split_nl_no_newline_id: "CHR 0x0A \<notin> set l \<Longrightarrow> split_nl l = [l]"
  by (induction l) auto

lemma split_nl_append:
  "CHR 0x0A \<notin> set l \<Longrightarrow> split_nl (l @ CHR 0x0A # r) = l # split_nl r"
  by (induction l) auto

text \<open>Joined lines without line feeds split into the same lines again.\<close>

lemma split_nl_join_nl:
  "ls \<noteq> [] \<Longrightarrow> \<forall>l\<in>set ls. CHR 0x0A \<notin> set l \<Longrightarrow> split_nl (join_nl ls) = ls"
proof (induction ls rule: join_nl.induct)
  case 1
  then show ?case by simp
next
  case (2 l)
  then show ?case by (simp add: split_nl_no_newline_id)
next
  case (3 l m ls)
  then show ?case by (simp add: split_nl_append)
qed

lemma set_trim_subset: "set (trim s) \<subseteq> set s"
proof -
  have "set (trim s) \<subseteq> set (dropWhile is_space s)"
    unfolding trim_def using set_dropWhileD[of _ is_space "rev (dropWhile is_space s)"] by auto
  then show ?thesis using set_dropWhileD[of _ is_space s] by blast
qed

lemma set_removeComment_subset: "set (removeComment line) \<subseteq> set line"
  using removeComment_prefix[of line] by (rule set_mono_prefix)

lemma set_repeat_subset: "set (repeat s n) \<subseteq> set s"
  by (induction n) (auto simp: repeat_def)


section \<open>Properties of the translator\<close>

lemma replace_no_newline:
  "CHR 0x0A \<notin> set s \<Longrightarrow> CHR 0x0A \<notin> set repl \<Longrightarrow> CHR 0x0A \<notin> set (replace s r repl)"
  using replace_chars[of s r repl] by blast

lemma substVariable_no_newline: "CHR 0x0A \<notin> set line \<Longrightarrow> CHR 0x0A \<notin> set (substVariable line)"
  unfolding substVariable_def Let_def by (intro replace_no_newline) simp_all

lemma substExpression_no_newline: "CHR 0x0A \<notin> set line \<Longrightarrow> CHR 0x0A \<notin> set (substExpression line)"
  unfolding substExpression_def Let_def by (intro replace_no_newline) simp_all

lemma convertFunction_no_newline:
  assumes "CHR 0x0A \<notin> set line" and "CHR 0x0A \<notin> set ind"
  shows "CHR 0x0A \<notin> set (convertFunction line ind)"
proof (cases "match line rx_function")
  case None
  then show ?thesis using assms by (simp add: convertFunction_def)
next
  case (Some caps)
  have "set (concat caps) \<subseteq> set line" using match_chars[OF Some] .
  then have "CHR 0x0A \<notin> set (concat caps)" using assms(1) by blast
  then show ?thesis using assms Some
    by (auto simp: convertFunction_def split: list.splits)
qed

lemma convertLoop_no_newline:
  assumes "CHR 0x0A \<notin> set line" and "CHR 0x0A \<notin> set ind"
  shows "CHR 0x0A \<notin> set (convertLoop line ind)"
proof (cases "match line rx_loop")
  case None
  then show ?thesis using assms by (simp add: convertLoop_def extractLoop_def)
next
  case (Some caps)
  have "set (concat caps) \<subseteq> set line" using match_chars[OF Some] .
  then have "CHR 0x0A \<notin> set (concat caps)" using assms(1) by blast
  then show ?thesis using assms Some
    by (auto simp: convertLoop_def extractLoop_def split: list.splits)
qed

lemma convertConditional_no_newline:
  assumes "CHR 0x0A \<notin> set line" and "CHR 0x0A \<notin> set ind"
  shows "CHR 0x0A \<notin> set (convertConditional line ind)"
proof (cases "match line rx_if")
  case None
  then show ?thesis using assms by (simp add: convertConditional_def)
next
  case (Some caps)
  have "set (concat caps) \<subseteq> set line" using match_chars[OF Some] .
  then have "CHR 0x0A \<notin> set (concat caps)" using assms(1) by blast
  then show ?thesis using assms Some
    by (auto simp: convertConditional_def split: list.splits)
qed

lemma convertVariable_no_newline:
  "CHR 0x0A \<notin> set line \<Longrightarrow> CHR 0x0A \<notin> set ind \<Longrightarrow> CHR 0x0A \<notin> set (convertVariable line ind)"
  by (simp add: convertVariable_def substVariable_no_newline)

lemma convertExpression_no_newline:
  "CHR 0x0A \<notin> set line \<Longrightarrow> CHR 0x0A \<notin> set ind \<Longrightarrow> CHR 0x0A \<notin> set (convertExpression line ind)"
  by (simp add: convertExpression_def substExpression_no_newline)

lemma convertLine_no_newline:
  assumes "CHR 0x0A \<notin> set (cleaned line)"
  shows "CHR 0x0A \<notin> set (convertLine line)"
proof -
  have i: "CHR 0x0A \<notin> set (repeat ''  '' (indent line div 2))"
    using set_repeat_subset[of "''  ''" "indent line div 2"] by auto
  show ?thesis
    using assms i
    by (cases "type line")
      (simp_all add: convertLine_def convertFunction_no_newline convertLoop_no_newline
        convertConditional_no_newline convertVariable_no_newline convertExpression_no_newline)
qed

lemma parseLine_cleaned_subset: "set (cleaned (parseLine line)) \<subseteq> set line"
  using set_trim_subset[of "removeComment line"] set_removeComment_subset[of line]
  by (auto simp: parseLine_cleaned)

text \<open>The lines of the output text are the translations of the lines of the code.\<close>

lemma translated_lines:
  "split_nl (toJavaScript (parse code)) = map (\<lambda>l. convertLine (parseLine l)) (split_nl code)"
proof -
  have ne: "jsLines (parse code) \<noteq> []"
    using split_nl_nonempty[of code] by (simp add: jsLines_def parse_def)
  have "\<forall>l\<in>set (jsLines (parse code)). CHR 0x0A \<notin> set l"
  proof
    fix l assume "l \<in> set (jsLines (parse code))"
    then obtain src where src: "src \<in> set (split_nl code)" and l: "l = convertLine (parseLine src)"
      by (auto simp: jsLines_def parse_def)
    have "CHR 0x0A \<notin> set src" using split_nl_no_newline[OF src] .
    then have "CHR 0x0A \<notin> set (cleaned (parseLine src))"
      using parseLine_cleaned_subset[of src] by blast
    then show "CHR 0x0A \<notin> set l" unfolding l by (rule convertLine_no_newline)
  qed
  then have "split_nl (toJavaScript (parse code)) = jsLines (parse code)"
    unfolding toJavaScript_def using ne by (intro split_nl_join_nl) simp_all
  then show ?thesis by (simp add: jsLines_def parse_def)
qed

text \<open>
  C4: the code is split into N lines, every line is classified and translated, and the
  output text has N lines again: the translator pushes one line per classified line, and
  no translated line contains a line feed. Line i of the output is the translation of
  line i of the code, and the translation of an empty line is empty.
\<close>

theorem line_count_preserved:
  "length (jsLines (parse code)) = length (split_nl code)
   \<and> split_nl (toJavaScript (parse code)) = map (\<lambda>l. convertLine (parseLine l)) (split_nl code)
   \<and> length (split_nl (toJavaScript (parse code))) = length (split_nl code)
   \<and> convertLine (parseLine []) = []"
proof -
  have "length (jsLines (parse code)) = length (split_nl code)"
    by (simp add: jsLines_def parse_def)
  moreover have "length (split_nl (toJavaScript (parse code))) = length (split_nl code)"
    by (simp add: translated_lines)
  moreover have "convertLine (parseLine []) = []"
    by (simp add: convertLine_def parseLine_type isEmpty_def trim_def)
  ultimately show ?thesis using translated_lines[of code] by simp
qed

text \<open>
  C1: the line \<open>loop crew:\<close> is classified as an expression, since the classifier has
  no check for loops, and the translator emits it with a semicolon. The loop branch of
  the translator, given the same text, emits the header the claim names.
\<close>

theorem loop_line_translated_as_expression:
  "type (parseLine ''loop crew:'') = Expression
   \<and> toJavaScript (parse ''loop crew:'') = ''loop crew:;''
   \<and> convertLoop ''loop crew:'' [] = ''for (const item of crew) {''"
  by code_simp

text \<open>
  C2, as stated: the two lines \<open>if truth:\<close> and \<open>    files "Approved"\<close> are not
  translated to \<open>if (true) {\<close> and \<open>  console.log("Approved");\<close>.
\<close>

theorem conditional_scenario_counterexample:
  "toJavaScript (parse ''if truth:\<newline>    files \"Approved\"'')
     \<noteq> ''if (true) {\<newline>  console.log(\"Approved\");''"
  by code_simp

text \<open>
  C2, amended: the output has two lines. The first is \<open>if (truth) {\<close>: the condition is
  copied as it stands. The second is the translation of the expression
  \<open>files "Approved"\<close> behind four spaces, two indent units for an indent of four.
\<close>

theorem conditional_scenario:
  "jsLines (parse ''if truth:\<newline>    files \"Approved\"'') =
     [''if (truth) {'', ''    '' @ convertExpression ''files \"Approved\"'' []]
   \<and> toJavaScript (parse ''if truth:\<newline>    files \"Approved\"'') =
     ''if (truth) {'' @ ''\<newline>'' @ ''    '' @ convertExpression ''files \"Approved\"'' []"
  by code_simp

section \<open>The function header\<close>

lemma run_Lit_elim:
  assumes "(c', p', s') \<in> set (run (Lit l) (c, p, s))"
  shows "c' = c \<and> s = l @ s'"
proof (cases "l = []")
  case True
  then show ?thesis using assms by simp
next
  case False
  then have "prefix l s" and e: "c' = c" "s' = drop (length l) s"
    using assms by (auto split: if_splits)
  then have "take (length l) s = l" by (auto simp: prefix_def)
  then have "s = l @ s'" using e(2) by (metis append_take_drop_id)
  then show ?thesis using e by simp
qed

lemma run_Plus_elim:
  assumes "(c', p', s') \<in> set (run (Plus P) (c, p, s))"
  shows "c' = c \<and> (\<exists>u. s = u @ s' \<and> u \<noteq> [] \<and> list_all P u)"
proof -
  have "(p', s') \<in> set (plus_greedy P p s)" and "c' = c" using assms by auto
  then show ?thesis using plus_greedy_sound[of p' s' P p s] by blast
qed

lemma run_LazyStar_elim:
  assumes "(c', p', s') \<in> set (run (LazyStar P) (c, p, s))"
  shows "c' = c \<and> (\<exists>u. s = u @ s' \<and> list_all P u)"
proof -
  have "(p', s') \<in> set (star_lazy P p s)" and "c' = c" using assms by auto
  then show ?thesis using star_lazy_sound[of p' s' P p s] by blast
qed

lemma run_Seq_elim:
  assumes "st' \<in> set (run (Seq a b) st)"
  obtains c p s where "(c, p, s) \<in> set (run a st)" and "st' \<in> set (run b (c, p, s))"
  using assms by auto

lemma run_Grp_elim:
  assumes "(c', p', s') \<in> set (run (Grp a) (c, p, s))"
  obtains c1 where "(c1, p', s') \<in> set (run a (c, p, s))"
    and "c' = c1 @ [take (length s - length s') s]"
  using assms by auto

text \<open>A success of the function pattern spells out a header and captures its two parts.\<close>

lemma run_rx_function:
  assumes "(c', p', s') \<in> set (run rx_function ([], p, s))"
  shows "\<exists>kw ws name params.
           s = kw @ ws @ name @ ''('' @ params @ ''):'' @ s' \<and>
           (kw = ''plot'' \<or> kw = ''plan'') \<and> ws \<noteq> [] \<and> list_all is_space ws \<and>
           name \<noteq> [] \<and> list_all is_word name \<and> list_all is_dot params \<and>
           c' = [name, params]"
proof -
  from assms[unfolded rx_function_def] obtain c1 p1 s1 where
    m1: "(c1, p1, s1) \<in> set (run (Alt (Lit ''plot'') (Lit ''plan'')) ([], p, s))" and
    r1: "(c', p', s') \<in> set (run (Seq (Plus is_space) (Seq (Grp (Plus is_word))
          (Seq (Lit ''('') (Seq (Grp (LazyStar is_dot)) (Lit ''):''))))) (c1, p1, s1))"
    by (rule run_Seq_elim)
  from r1 obtain c2 p2 s2 where
    m2: "(c2, p2, s2) \<in> set (run (Plus is_space) (c1, p1, s1))" and
    r2: "(c', p', s') \<in> set (run (Seq (Grp (Plus is_word))
          (Seq (Lit ''('') (Seq (Grp (LazyStar is_dot)) (Lit ''):'')))) (c2, p2, s2))"
    by (rule run_Seq_elim)
  from r2 obtain c3 p3 s3 where
    m3: "(c3, p3, s3) \<in> set (run (Grp (Plus is_word)) (c2, p2, s2))" and
    r3: "(c', p', s') \<in> set (run (Seq (Lit ''('') (Seq (Grp (LazyStar is_dot)) (Lit ''):'')))
          (c3, p3, s3))"
    by (rule run_Seq_elim)
  from r3 obtain c4 p4 s4 where
    m4: "(c4, p4, s4) \<in> set (run (Lit ''('') (c3, p3, s3))" and
    r4: "(c', p', s') \<in> set (run (Seq (Grp (LazyStar is_dot)) (Lit ''):'')) (c4, p4, s4))"
    by (rule run_Seq_elim)
  from r4 obtain c5 p5 s5 where
    m5: "(c5, p5, s5) \<in> set (run (Grp (LazyStar is_dot)) (c4, p4, s4))" and
    m6: "(c', p', s') \<in> set (run (Lit ''):'') (c5, p5, s5))"
    by (rule run_Seq_elim)
  from m1 have "(c1, p1, s1) \<in> set (run (Lit ''plot'') ([], p, s))
      \<or> (c1, p1, s1) \<in> set (run (Lit ''plan'') ([], p, s))" by simp
  then have "(c1 = [] \<and> s = ''plot'' @ s1) \<or> (c1 = [] \<and> s = ''plan'' @ s1)"
    using run_Lit_elim[of c1 p1 s1 "''plot''" "[]" p s] run_Lit_elim[of c1 p1 s1 "''plan''" "[]" p s]
    by blast
  then obtain kw where kw: "kw = ''plot'' \<or> kw = ''plan''" and e1: "c1 = []" "s = kw @ s1"
    by blast
  from run_Plus_elim[OF m2] obtain ws where
    e2: "c2 = c1" "s1 = ws @ s2" "ws \<noteq> []" "list_all is_space ws" by blast
  from m3 obtain d3 where m3': "(d3, p3, s3) \<in> set (run (Plus is_word) (c2, p2, s2))"
    and c3: "c3 = d3 @ [take (length s2 - length s3) s2]" by (rule run_Grp_elim)
  from run_Plus_elim[OF m3'] obtain name where
    e3: "d3 = c2" "s2 = name @ s3" "name \<noteq> []" "list_all is_word name" by blast
  have c3': "c3 = [name]" unfolding c3 e3(1) e2(1) e1(1) e3(2) by simp
  from run_Lit_elim[OF m4] have e4: "c4 = c3" "s3 = ''('' @ s4" by blast+
  from m5 obtain d5 where m5': "(d5, p5, s5) \<in> set (run (LazyStar is_dot) (c4, p4, s4))"
    and c5: "c5 = d5 @ [take (length s4 - length s5) s4]" by (rule run_Grp_elim)
  from run_LazyStar_elim[OF m5'] obtain params where
    e5: "d5 = c4" "s4 = params @ s5" "list_all is_dot params" by blast
  have c5': "c5 = [name, params]" unfolding c5 e5(1) e4(1) c3' e5(2) by simp
  from run_Lit_elim[OF m6] have e6: "c' = c5" "s5 = ''):'' @ s'" by blast+
  have "s = kw @ ws @ name @ ''('' @ params @ ''):'' @ s'"
    unfolding e1(2) e2(2) e3(2) e4(2) e5(2) e6(2) by simp
  moreover have "c' = [name, params]" using c5' e6(1) by simp
  ultimately have "s = kw @ ws @ name @ ''('' @ params @ ''):'' @ s' \<and>
           (kw = ''plot'' \<or> kw = ''plan'') \<and> ws \<noteq> [] \<and> list_all is_space ws \<and>
           name \<noteq> [] \<and> list_all is_word name \<and> list_all is_dot params \<and>
           c' = [name, params]"
    using kw e2(3,4) e3(3,4) e5(3) by simp
  then show ?thesis by blast
qed

lemma search_from_Some:
  "search_from r pv s = Some caps \<Longrightarrow>
     \<exists>pre pv' rest st. s = pre @ rest \<and> match_at r pv' rest = Some st \<and> fst st = caps"
proof (induction s arbitrary: pv)
  case Nil
  then obtain st where st: "match_at r pv [] = Some st" "fst st = caps" by auto
  show ?case
    by (rule exI[of _ "[]"], rule exI[of _ pv], rule exI[of _ "[]"], rule exI[of _ st])
      (simp add: st)
next
  case (Cons c cs)
  show ?case
  proof (cases "match_at r pv (c # cs)")
    case None
    then have "search_from r (Some c) cs = Some caps" using Cons.prems by simp
    from Cons.IH[OF this] obtain pre pv' rest st where
      h: "cs = pre @ rest" "match_at r pv' rest = Some st" "fst st = caps" by blast
    show ?thesis
      by (rule exI[of _ "c # pre"], rule exI[of _ pv'], rule exI[of _ rest], rule exI[of _ st])
        (simp add: h)
  next
    case (Some st)
    then have f: "fst st = caps" using Cons.prems by simp
    show ?thesis
      by (rule exI[of _ "[]"], rule exI[of _ pv], rule exI[of _ "c # cs"], rule exI[of _ st])
        (simp add: Some f)
  qed
qed

lemma match_at_in_run: "match_at r pv s = Some st \<Longrightarrow> st \<in> set (run r ([], pv, s))"
  by (auto simp: match_at_def split: list.splits)

lemma match_rx_function:
  assumes "match line rx_function = Some caps"
  shows "function_header line \<and> (\<exists>name params. caps = [name, params])"
proof -
  from search_from_Some[OF assms[unfolded match_def]] obtain pre pv' rest st where
    l: "line = pre @ rest" and m: "match_at rx_function pv' rest = Some st" and c: "fst st = caps"
    by blast
  obtain p' s' where st: "st = (caps, p', s')" using c by (cases st) auto
  have "(caps, p', s') \<in> set (run rx_function ([], pv', rest))"
    using match_at_in_run[OF m] st by simp
  from run_rx_function[OF this] obtain kw ws name params where
    d: "rest = kw @ ws @ name @ ''('' @ params @ ''):'' @ s'"
       "kw = ''plot'' \<or> kw = ''plan''" "ws \<noteq> []" "list_all is_space ws"
       "name \<noteq> []" "list_all is_word name" "list_all is_dot params" "caps = [name, params]"
    by blast
  have "line = pre @ kw @ ws @ name @ ''('' @ params @ ''):'' @ s'" using l d(1) by simp
  then have "function_header line" unfolding function_header_def using d by blast
  then show ?thesis using d(8) by blast
qed

lemma convertFunction_malformed:
  assumes "\<not> function_header line"
  shows "convertFunction line ind = ind @ ''// ERROR: Invalid function syntax''"
proof (cases "match line rx_function")
  case None
  then show ?thesis by (simp add: convertFunction_def)
next
  case (Some caps)
  then show ?thesis using match_rx_function[OF Some] assms by simp
qed

text \<open>
  C6: a function line that has not the shape of a header is translated to the comment
  that flags invalid syntax, at the indentation of the line. The translator is a total
  function without an error result, so the whole program is translated all the same: the
  comment stands at the place of the line in the output, which has a line for every
  line of the program.
\<close>

theorem malformed_function_header:
  assumes "i < length (split_nl code)"
    and "type (parseLine (split_nl code ! i)) = Function"
    and "\<not> function_header (cleaned (parseLine (split_nl code ! i)))"
  shows "split_nl (toJavaScript (parse code)) ! i =
           repeat ''  '' (getIndent (split_nl code ! i) div 2) @ ''// ERROR: Invalid function syntax''
         \<and> length (split_nl (toJavaScript (parse code))) = length (split_nl code)"
proof -
  let ?l = "split_nl code ! i"
  have "split_nl (toJavaScript (parse code)) ! i = convertLine (parseLine ?l)"
    using assms(1) by (simp add: translated_lines)
  also have "\<dots> = convertFunction (cleaned (parseLine ?l)) (repeat ''  '' (indent (parseLine ?l) div 2))"
    using assms(2) by (simp add: convertLine_def)
  also have "\<dots> = repeat ''  '' (indent (parseLine ?l) div 2) @ ''// ERROR: Invalid function syntax''"
    using assms(3) by (rule convertFunction_malformed)
  finally show ?thesis by (simp add: parseLine_indent translated_lines)
qed

lemma function_header_colon: "function_header l \<Longrightarrow> CHR '':'' \<in> set l"
  by (auto simp: function_header_def)

theorem malformed_function_header_witness:
  "type (parseLine ''    plot broken(x)'') = Function
   \<and> \<not> function_header (cleaned (parseLine ''    plot broken(x)''))
   \<and> split_nl (toJavaScript (parse ''x = 1\<newline>    plot broken(x)'')) ! 1 =
       ''    // ERROR: Invalid function syntax''"
proof -
  have l: "split_nl ''x = 1\<newline>    plot broken(x)'' ! 1 = ''    plot broken(x)''"
    by simp
  have h1: "1 < length (split_nl ''x = 1\<newline>    plot broken(x)'')"
    by simp
  have c: "cleaned (parseLine ''    plot broken(x)'') = ''plot broken(x)''"
    by code_simp
  have h2: "type (parseLine ''    plot broken(x)'') = Function"
    by code_simp
  have h3: "\<not> function_header (cleaned (parseLine ''    plot broken(x)''))"
    unfolding c using function_header_colon[of "''plot broken(x)''"] by auto
  have i: "repeat ''  '' (getIndent ''    plot broken(x)'' div 2) = ''    ''"
    by code_simp
  show ?thesis
    using malformed_function_header[of 1 "''x = 1\<newline>    plot broken(x)''"] h1 h2 h3
    unfolding l i by simp
qed

section \<open>Properties of the executor\<close>

lemma map_of_setProperty: "map_of (setProperty obj k v) = (map_of obj)(k \<mapsto> v)"
  by (induction obj k v rule: setProperty.induct) auto

lemma keys_setProperty:
  "set (map fst (setProperty obj k v)) = insert k (set (map fst obj))"
  by (induction obj k v rule: setProperty.induct) auto

lemma distinct_setProperty:
  "distinct (map fst obj) \<Longrightarrow> distinct (map fst (setProperty obj k v))"
proof (induction obj k v rule: setProperty.induct)
  case (1 k v)
  then show ?case by simp
next
  case (2 k' v' ps k v)
  have "set (map fst (setProperty ps k v)) = insert k (set (map fst ps))"
    by (rule keys_setProperty)
  then show ?case using 2 by auto
qed

text \<open>Assigning a list of properties one after the other: a later one overrides.\<close>

lemma map_of_assign_all:
  "map_of (fold (\<lambda>(k, v) obj. setProperty obj k v) ps obj) = map_of obj ++ map_of (rev ps)"
proof (induction ps arbitrary: obj)
  case Nil
  then show ?case by simp
next
  case (Cons p ps)
  obtain k v where p: "p = (k, v)" by (cases p) auto
  have "map_of (fold (\<lambda>(k, v) obj. setProperty obj k v) (p # ps) obj)
      = map_of (setProperty obj k v) ++ map_of (rev ps)"
    using Cons.IH[of "setProperty obj k v"] p by simp
  also have "\<dots> = (map_of obj)(k \<mapsto> v) ++ map_of (rev ps)"
    by (simp add: map_of_setProperty)
  also have "\<dots> = map_of obj ++ map_of (rev (p # ps))"
    unfolding p by (rule ext) (auto simp: map_add_def split: option.splits)
  finally show ?case .
qed

lemma keys_assign_all:
  "set (map fst (fold (\<lambda>(k, v) obj. setProperty obj k v) ps obj))
     = set (map fst obj) \<union> set (map fst ps)"
proof (induction ps arbitrary: obj)
  case Nil
  then show ?case by simp
next
  case (Cons p ps)
  obtain k v where p: "p = (k, v)" by (cases p) auto
  show ?case using Cons.IH[of "setProperty obj k v"] p keys_setProperty[of obj k v]
    by auto
qed

lemma distinct_assign_all:
  "distinct (map fst obj) \<Longrightarrow>
     distinct (map fst (fold (\<lambda>(k, v) obj. setProperty obj k v) ps obj))"
proof (induction ps arbitrary: obj)
  case Nil
  then show ?case by simp
next
  case (Cons p ps)
  obtain k v where p: "p = (k, v)" by (cases p) auto
  show ?case using Cons.IH[of "setProperty obj k v"] Cons.prems p distinct_setProperty[of obj k v]
    by simp
qed

lemma map_of_rev_distinct: "distinct (map fst ps) \<Longrightarrow> map_of (rev ps) = map_of ps"
proof (induction ps)
  case Nil
  then show ?case by simp
next
  case (Cons p ps)
  then have ih: "map_of (rev ps) = map_of ps" and n: "map_of ps (fst p) = None"
    by (simp_all add: map_of_eq_None_iff)
  show ?case
  proof (rule ext)
    fix x
    show "map_of (rev (p # ps)) x = map_of (p # ps) x"
      using ih n by (cases p) (auto simp: map_add_def split: option.splits)
  qed
qed

text \<open>A plain name is no array index, so an object of plain names is enumerated as it was built.\<close>

lemma plain_name_no_index: "is_plain_name k \<Longrightarrow> \<not> is_array_index k"
  by (cases k) (auto simp: is_plain_name_def is_array_index_def)

lemma entries_plain_names:
  assumes "list_all is_plain_name (map fst obj)"
  shows "entries obj = obj"
proof -
  have "\<forall>p\<in>set obj. \<not> is_array_index (fst p)"
    using assms plain_name_no_index by (auto simp: list_all_iff)
  then have "filter (\<lambda>(k, v). is_array_index k) obj = []"
    and "filter (\<lambda>(k, v). \<not> is_array_index k) obj = obj"
    by (auto simp: filter_empty_conv filter_id_conv)
  then show ?thesis by (simp add: entries_def)
qed

lemma spread_plain_names:
  assumes "list_all is_plain_name (map fst a)" and "list_all is_plain_name (map fst b)"
  shows "spread a b = fold (\<lambda>(k, v) obj. setProperty obj k v) (a @ b) []"
    and "list_all is_plain_name (map fst (spread a b))"
    and "distinct (map fst (spread a b))"
proof -
  show s: "spread a b = fold (\<lambda>(k, v) obj. setProperty obj k v) (a @ b) []"
    by (simp add: spread_def entries_plain_names[OF assms(1)] entries_plain_names[OF assms(2)])
  have "set (map fst (spread a b)) = set (map fst a) \<union> set (map fst b)"
    unfolding s using keys_assign_all[of "a @ b" "[]"] by simp
  then show "list_all is_plain_name (map fst (spread a b))"
    using assms unfolding list_all_iff by blast
  show "distinct (map fst (spread a b))"
    unfolding s by (rule distinct_assign_all) simp
qed

lemma map_of_spread:
  assumes "list_all is_plain_name (map fst a)" and "list_all is_plain_name (map fst b)"
    and "distinct (map fst a)" and "distinct (map fst b)"
  shows "map_of (spread a b) = map_of a ++ map_of b"
proof -
  have "map_of (spread a b) = map_of (rev a) ++ map_of (rev b)"
    by (simp add: spread_plain_names(1)[OF assms(1,2)] map_of_assign_all)
  then show ?thesis using assms(3,4) by (simp add: map_of_rev_distinct)
qed

text \<open>Bound by position, the keys of an object of plain names have the values of the object.\<close>

lemma positional_keys_values:
  assumes "list_all is_plain_name (map fst obj)" and "distinct (map fst obj)"
  shows "positional (keys obj) (values_of obj) = map_of obj"
proof -
  have "positional (keys obj) (values_of obj) = map_of (rev (zip (map fst obj) (map snd obj)))"
    by (simp add: positional_def keys_def values_of_def entries_plain_names[OF assms(1)])
  also have "\<dots> = map_of (rev obj)" by (simp add: zip_map_fst_snd)
  also have "\<dots> = map_of obj" using assms(2) by (rule map_of_rev_distinct)
  finally show ?thesis .
qed

lemma globalScope_new_Executor:
  "map fst (globalScope new_Executor) =
     [''theory'', ''risk'', ''ghost'', ''money'', ''island'', ''girl'', ''mission'', ''secret'',
      ''weapon'', ''files'', ''truestory'', ''falsestory'', ''truth'', ''lie'', ''universe'',
      ''alibi'', ''console'']"
  by (simp add: new_Executor_def setupGlobalScope_def)

lemma plain_new_Executor: "list_all is_plain_name (map fst (globalScope new_Executor))"
  unfolding globalScope_new_Executor by (simp add: is_plain_name_def is_word_def is_digit_def)

lemma distinct_new_Executor: "distinct (map fst (globalScope new_Executor))"
  unfolding globalScope_new_Executor by simp

lemma keys_new_Executor:
  "keys (globalScope new_Executor) =
     [''theory'', ''risk'', ''ghost'', ''money'', ''island'', ''girl'', ''mission'', ''secret'',
      ''weapon'', ''files'', ''truestory'', ''falsestory'', ''truth'', ''lie'', ''universe'',
      ''alibi'', ''console'']"
  using globalScope_new_Executor by (simp add: keys_def entries_plain_names[OF plain_new_Executor])

text \<open>
  C9: the built-in bindings are seventeen fixed names. The override mapping is an object
  whose keys are plain names, and the host binds plain names by position. When the code
  is run with the overrides, that is, when the host has built the function, the names
  the code sees are those of the built-in bindings and those of the overrides, and a
  name has the value of the override where there is one, the built-in value otherwise.
\<close>

theorem overrides_win:
  assumes "binds_plain_names newFunction"
    and "list_all is_plain_name (map fst customScope)" and "distinct (map fst customScope)"
    and "executeWithScope newFunction new_Executor jsCode customScope = Inr env"
  shows "keys (globalScope new_Executor) =
            [''theory'', ''risk'', ''ghost'', ''money'', ''island'', ''girl'', ''mission'',
             ''secret'', ''weapon'', ''files'', ''truestory'', ''falsestory'', ''truth'', ''lie'',
             ''universe'', ''alibi'', ''console'']
         \<and> dom env = set (keys (globalScope new_Executor)) \<union> set (keys customScope)
         \<and> env name
            = (case map_of customScope name of
                 Some v \<Rightarrow> Some v
               | None \<Rightarrow> map_of (globalScope new_Executor) name)"
proof -
  let ?g = "globalScope new_Executor"
  let ?m = "spread ?g customScope"
  note pm = spread_plain_names(2,3)[OF plain_new_Executor assms(2)]
  from assms(4) obtain func where f: "newFunction (keys ?m) jsCode = Some func"
    and e: "env = func (values_of ?m)"
    by (auto simp: executeWithScope_def Let_def split: option.splits)
  have "list_all is_plain_name (keys ?m)"
    using pm(1) by (simp add: keys_def entries_plain_names[OF pm(1)])
  then have "func = positional (keys ?m)"
    using assms(1) f unfolding binds_plain_names_def by blast
  then have "env = map_of ?m" using e positional_keys_values[OF pm] by simp
  then have env: "env = map_of ?g ++ map_of customScope"
    using map_of_spread[OF plain_new_Executor assms(2) distinct_new_Executor assms(3)] by simp
  have "dom env = set (keys ?g) \<union> set (keys customScope)"
    unfolding env
    by (auto simp: keys_def entries_plain_names[OF plain_new_Executor]
        entries_plain_names[OF assms(2)] dom_map_of_conv_image_fst)
  moreover have "env name
            = (case map_of customScope name of
                 Some v \<Rightarrow> Some v
               | None \<Rightarrow> map_of (globalScope new_Executor) name)"
    unfolding env by (simp add: map_add_def)
  ultimately show ?thesis using keys_new_Executor by blast
qed

theorem overrides_win_witness:
  "\<exists>env. executeWithScope (\<lambda>names body. Some (positional names)) new_Executor ''files(truth)''
          [(''truth'', Other ''mine''), (''crew'', Other ''list'')] = Inr env
     \<and> dom env = set (keys (globalScope new_Executor)) \<union> {''truth'', ''crew''}
     \<and> env ''truth'' = Some (Other ''mine'')
     \<and> env ''lie'' = Some (JSBool False)
     \<and> env ''crew'' = Some (Other ''list'')"
proof -
  let ?F = "\<lambda>names body. Some (positional names) :: host_function option"
  let ?c = "[(''truth'', Other ''mine''), (''crew'', Other ''list'')]"
  have h1: "binds_plain_names ?F" by (simp add: binds_plain_names_def)
  have h2: "list_all is_plain_name (map fst ?c)"
    by (simp add: is_plain_name_def is_word_def is_digit_def)
  have h3: "distinct (map fst ?c)" by simp
  obtain env where h4: "executeWithScope ?F new_Executor ''files(truth)'' ?c = Inr env"
    by (simp add: executeWithScope_def Let_def)
  have k: "keys ?c = [''truth'', ''crew'']"
    by (simp add: keys_def entries_plain_names[OF h2])
  have g: "map_of (globalScope new_Executor) ''lie'' = Some (JSBool False)"
    "map_of (globalScope new_Executor) ''crew'' = None"
    by (simp_all add: new_Executor_def setupGlobalScope_def)
  have "dom env = set (keys (globalScope new_Executor)) \<union> {''truth'', ''crew''}
     \<and> env ''truth'' = Some (Other ''mine'')
     \<and> env ''lie'' = Some (JSBool False)
     \<and> env ''crew'' = Some (Other ''list'')"
    using overrides_win[OF h1 h2 h3 h4, of "''truth''"] overrides_win[OF h1 h2 h3 h4, of "''lie''"]
      overrides_win[OF h1 h2 h3 h4, of "''crew''"] g unfolding k by simp
  then show ?thesis using h4 by blast
qed

text \<open>
  Outside the plain names the host decides. An array index among the overrides is
  enumerated first, and the host takes it for a parameter text: where the host throws,
  \<open>executeWithScope\<close> throws.
\<close>

lemma index_key_first:
  "keys (spread (globalScope new_Executor) [(''crew'', Other ''list''), (''0'', Other ''x'')]) =
     [''0'', ''theory'', ''risk'', ''ghost'', ''money'', ''island'', ''girl'', ''mission'',
      ''secret'', ''weapon'', ''files'', ''truestory'', ''falsestory'', ''truth'', ''lie'',
      ''universe'', ''alibi'', ''console'', ''crew'']"
  by (simp add: keys_def spread_def entries_def is_array_index_def is_digit_def index_value_def
      new_Executor_def setupGlobalScope_def)

lemma constructor_throws:
  "newFunction (keys (spread (globalScope this) customScope)) jsCode = None \<Longrightarrow>
     executeWithScope newFunction this jsCode customScope = Inl SyntaxError"
  by (simp add: executeWithScope_def Let_def)


section \<open>Keyword rules leave other identifiers alone\<close>

lemma keyword_rule_matchD:
  assumes "keyword_rule r kw" and "match_at r pv s = Some (caps, pv', s')"
  shows "\<not> word_before pv" and "takeWhile is_word s = kw" and "kw \<noteq> []" and "length s' < length s"
  using assms unfolding keyword_rule_def by blast+

lemma keyword_rule_local:
  assumes "keyword_rule r kw" and "p \<noteq> []" and "\<not> is_word (last p)" and "word_after x"
  shows "match_at r pv (p @ x) = map_option (\<lambda>(c, pv', s'). (c, pv', s' @ x)) (match_at r pv p)"
  using assms unfolding keyword_rule_def by blast

lemma keyword_rule_before:
  assumes "keyword_rule r kw" and "word_before pv = word_before pv2"
  shows "match_at r pv s = match_at r pv2 s"
  using assms unfolding keyword_rule_def by blast

lemma keyword_rule_no_match:
  assumes "keyword_rule r kw" and "word_before pv \<or> takeWhile is_word s \<noteq> kw"
  shows "match_at r pv s = None"
proof (cases "match_at r pv s")
  case None
  then show ?thesis .
next
  case (Some st)
  obtain caps pv' s' where "st = (caps, pv', s')" by (cases st) auto
  then show ?thesis using keyword_rule_matchD(1,2)[OF assms(1), of pv s caps pv' s'] Some assms(2)
    by auto
qed

lemma keyword_rule_no_match_Nil:
  assumes "keyword_rule r kw"
  shows "match_at r pv [] = None"
proof (cases "match_at r pv []")
  case None
  then show ?thesis .
next
  case (Some st)
  obtain caps pv' s' where "st = (caps, pv', s')" by (cases st) auto
  then show ?thesis using keyword_rule_matchD(4)[OF assms, of pv "[]" caps pv' s'] Some by simp
qed

lemma replace_from_Nil:
  assumes "keyword_rule r kw"
  shows "replace_from r repl pv [] = []"
  using keyword_rule_no_match_Nil[OF assms, of pv] by (subst replace_from.simps) simp

lemma replace_from_no_match:
  assumes "match_at r pv (c # cs) = None"
  shows "replace_from r repl pv (c # cs) = c # replace_from r repl (Some c) cs"
  using assms by (subst replace_from.simps) simp

lemma replace_from_match:
  assumes "match_at r pv s = Some (caps, pv', s')" and "length s' < length s"
  shows "replace_from r repl pv s = repl @ replace_from r repl pv' s'"
  using assms by (subst replace_from.simps) simp


lemma takeWhile_word_identifier:
  assumes "is_identifier w" and "\<not> word_after post"
  shows "takeWhile is_word (w @ post) = w"
proof -
  have "\<forall>c\<in>set w. is_word c" using assms(1) by (simp add: is_identifier_def list_all_iff)
  moreover have "takeWhile is_word post = []"
    using assms(2) by (cases post) (simp_all add: word_after_def)
  ultimately show ?thesis by (simp add: takeWhile_append2)
qed

text \<open>An identifier that is not the keyword is copied.\<close>

lemma replace_from_identifier:
  assumes "keyword_rule r kw" and "is_identifier w" and "\<not> word_after post"
    and "word_before pv \<or> w \<noteq> kw"
  shows "replace_from r repl pv (w @ post) = w @ replace_from r repl (Some (last w)) post"
  using assms(2,4)
proof (induction w arbitrary: pv)
  case Nil
  then show ?case by (simp add: is_identifier_def)
next
  case (Cons c w)
  have tw: "takeWhile is_word ((c # w) @ post) = c # w"
    using takeWhile_word_identifier[OF Cons.prems(1) assms(3)] .
  have "match_at r pv ((c # w) @ post) = None"
    using Cons.prems(2) tw by (intro keyword_rule_no_match[OF assms(1)]) auto
  then have step: "replace_from r repl pv ((c # w) @ post) = c # replace_from r repl (Some c) (w @ post)"
    using replace_from_no_match[of r pv c "w @ post" repl] by simp
  have cw: "is_word c" using Cons.prems(1) by (simp add: is_identifier_def)
  show ?case
  proof (cases "w = []")
    case True
    then show ?thesis using step by simp
  next
    case False
    then have "is_identifier w" using Cons.prems(1) by (simp add: is_identifier_def)
    moreover have "word_before (Some c) \<or> w \<noteq> kw" using cw by (simp add: word_before_def)
    ultimately have "replace_from r repl (Some c) (w @ post) = w @ replace_from r repl (Some (last w)) post"
      by (rule Cons.IH)
    then show ?thesis using step False by simp
  qed
qed

text \<open>Behind a text that does not start with a word character, the character before does not matter.\<close>

lemma replace_from_context:
  assumes "keyword_rule r kw" and "\<not> word_after post"
  shows "replace_from r repl pv post = replace_from r repl None post"
proof (cases post)
  case Nil
  then show ?thesis by (simp add: replace_from_Nil[OF assms(1)])
next
  case (Cons c cs)
  then have "\<not> is_word c" using assms(2) by (simp add: word_after_def)
  then have "takeWhile is_word (c # cs) = []" by simp
  moreover have "kw \<noteq> [] \<or> (\<forall>pv. match_at r pv (c # cs) = None)"
    using keyword_rule_matchD(3)[OF assms(1)] by (metis not_Some_eq prod_cases3)
  ultimately have "\<And>pv. match_at r pv (c # cs) = None"
    using keyword_rule_no_match[OF assms(1)] by metis
  then show ?thesis unfolding Cons by (simp add: replace_from_no_match)
qed


lemma not_ends_with_word_suffix:
  assumes "\<not> ends_with_word (u @ s)" and "s \<noteq> []"
  shows "\<not> ends_with_word s"
  using assms by (simp add: ends_with_word_def)

text \<open>
  The split: around an identifier that is not the keyword, the replacement works on the
  text before and on the text behind, each by itself.
\<close>

lemma replace_from_split:
  assumes r: "keyword_rule r kw" and w: "is_identifier w" "w \<noteq> kw"
    and post: "\<not> word_after post"
  shows "\<not> ends_with_word pre \<Longrightarrow>
    replace_from r repl pv (pre @ w @ post) =
      replace_from r repl pv pre @ w @ replace_from r repl None post"
proof (induction pre arbitrary: pv rule: length_induct)
  case (1 pre)
  have ident: "\<And>pv. replace_from r repl pv (w @ post) = w @ replace_from r repl None post"
    using replace_from_identifier[OF r w(1) post, of _ repl] w(2)
      replace_from_context[OF r post, of repl] by simp
  have wx: "word_after (w @ post)"
    using w(1) by (cases w) (simp_all add: is_identifier_def word_after_def)
  show ?case
  proof (cases pre)
    case Nil
    then show ?thesis using ident by (simp add: replace_from_Nil[OF r])
  next
    case (Cons c cs)
    have ne: "pre \<noteq> []" and lp: "\<not> is_word (last pre)"
      using Cons "1.prems" by (simp_all add: ends_with_word_def)
    have loc: "match_at r pv (pre @ w @ post)
        = map_option (\<lambda>(c, pv', s'). (c, pv', s' @ w @ post)) (match_at r pv pre)"
      using keyword_rule_local[OF r ne lp wx] .
    show ?thesis
    proof (cases "match_at r pv pre")
      case None
      then have n: "match_at r pv (c # cs @ w @ post) = None" using loc Cons by simp
      have cs: "\<not> ends_with_word cs"
        using "1.prems" Cons not_ends_with_word_suffix[of "[c]" cs]
        by (cases "cs = []") (simp_all add: ends_with_word_def)
      have "replace_from r repl (Some c) (cs @ w @ post) =
          replace_from r repl (Some c) cs @ w @ replace_from r repl None post"
        using "1.IH" Cons cs by simp
      then show ?thesis
        using replace_from_no_match[OF n, of repl] None Cons
          replace_from_no_match[of r pv c cs repl] by simp
    next
      case (Some st)
      obtain caps pv' s' where st: "st = (caps, pv', s')" by (cases st) auto
      have m: "match_at r pv pre = Some (caps, pv', s')" using Some st by simp
      have len: "length s' < length pre" using keyword_rule_matchD(4)[OF r m] .
      obtain u where u: "pre = u @ s'" using match_at_sound[OF m] by blast
      have s': "\<not> ends_with_word s'"
        using "1.prems" u not_ends_with_word_suffix[of u s']
        by (cases "s' = []") (simp_all add: ends_with_word_def)
      have m2: "match_at r pv (pre @ w @ post) = Some (caps, pv', s' @ w @ post)"
        using loc m by simp
      have "replace_from r repl pv (pre @ w @ post) = repl @ replace_from r repl pv' (s' @ w @ post)"
        using replace_from_match[OF m2] len by simp
      also have "replace_from r repl pv' (s' @ w @ post) =
          replace_from r repl pv' s' @ w @ replace_from r repl None post"
        using "1.IH" len s' by simp
      finally show ?thesis using replace_from_match[OF m len, of repl] by simp
    qed
  qed
qed

lemma replace_from_nonempty:
  assumes "repl \<noteq> []" and "s \<noteq> []"
  shows "replace_from r repl pv s \<noteq> []"
proof (cases s)
  case Nil
  then show ?thesis using assms by simp
next
  case (Cons c cs)
  show ?thesis unfolding Cons using assms(1)
    by (subst replace_from.simps) (auto split: option.splits)
qed

text \<open>A replacement that keeps the end maps a text that ends with no word character to such a text.\<close>

lemma replace_from_ends:
  assumes r: "keyword_rule r kw" and k: "keeps_end r repl"
  shows "\<not> ends_with_word s \<Longrightarrow> \<not> ends_with_word (replace_from r repl pv s)"
proof (induction s arbitrary: pv rule: length_induct)
  case (1 s)
  have repl: "repl \<noteq> []" using k by (simp add: keeps_end_def)
  show ?case
  proof (cases s)
    case Nil
    then show ?thesis by (simp add: replace_from_Nil[OF r] ends_with_word_def)
  next
    case (Cons c cs)
    show ?thesis
    proof (cases "match_at r pv s")
      case None
      then have e: "replace_from r repl pv s = c # replace_from r repl (Some c) cs"
        using replace_from_no_match[of r pv c cs repl] Cons by simp
      show ?thesis
      proof (cases "cs = []")
        case True
        then show ?thesis using e "1.prems" Cons
          by (simp add: replace_from_Nil[OF r] ends_with_word_def)
      next
        case False
        then have "\<not> ends_with_word cs" using "1.prems" Cons by (simp add: ends_with_word_def)
        then have "\<not> ends_with_word (replace_from r repl (Some c) cs)"
          using "1.IH" Cons by simp
        moreover have "replace_from r repl (Some c) cs \<noteq> []"
          using replace_from_nonempty[OF repl False] .
        ultimately show ?thesis using e by (simp add: ends_with_word_def)
      qed
    next
      case (Some st)
      obtain caps pv' s' where st: "st = (caps, pv', s')" by (cases st) auto
      have m: "match_at r pv s = Some (caps, pv', s')" using Some st by simp
      have len: "length s' < length s" using keyword_rule_matchD(4)[OF r m] .
      obtain u where u: "s = u @ s'" using match_at_sound[OF m] by blast
      have e: "replace_from r repl pv s = repl @ replace_from r repl pv' s'"
        using replace_from_match[OF m len] .
      show ?thesis
      proof (cases "s' = []")
        case True
        have "\<not> is_word (last s)" using "1.prems" Cons by (simp add: ends_with_word_def)
        then have "\<not> is_word (last repl)" using k m True unfolding keeps_end_def by blast
        then show ?thesis using e True by (simp add: replace_from_Nil[OF r] ends_with_word_def)
      next
        case False
        then have "\<not> ends_with_word s'"
          using "1.prems" u not_ends_with_word_suffix[of u s'] by simp
        then have "\<not> ends_with_word (replace_from r repl pv' s')" using "1.IH" len by simp
        moreover have "replace_from r repl pv' s' \<noteq> []"
          using replace_from_nonempty[OF repl False] .
        ultimately show ?thesis using e by (simp add: ends_with_word_def)
      qed
    qed
  qed
qed

lemma replace_from_starts:
  assumes r: "keyword_rule r kw" and "\<not> word_after s"
  shows "\<not> word_after (replace_from r repl pv s)"
proof (cases s)
  case Nil
  then show ?thesis by (simp add: replace_from_Nil[OF r] word_after_def)
next
  case (Cons c cs)
  then have c: "\<not> is_word c" using assms(2) by (simp add: word_after_def)
  then have "takeWhile is_word (c # cs) = []" by simp
  moreover have "kw \<noteq> [] \<or> match_at r pv (c # cs) = None"
    using keyword_rule_matchD(3)[OF r] by (metis not_Some_eq prod_cases3)
  ultimately have "match_at r pv (c # cs) = None"
    using keyword_rule_no_match[OF r] by metis
  then show ?thesis unfolding Cons using c by (simp add: replace_from_no_match word_after_def)
qed

text \<open>One rule, in the form the chains of replacements of the translator use.\<close>

lemma replace_split:
  assumes "keyword_rule r kw" and "keeps_end r repl" and "is_identifier w" and "w \<noteq> kw"
    and "s = pre @ w @ post \<and> \<not> ends_with_word pre \<and> \<not> word_after post"
  shows "replace s r repl = replace pre r repl @ w @ replace post r repl
         \<and> \<not> ends_with_word (replace pre r repl) \<and> \<not> word_after (replace post r repl)"
  unfolding replace_def
  using replace_from_split[OF assms(1,3,4), of post pre repl None]
    replace_from_ends[OF assms(1,2), of pre None] replace_from_starts[OF assms(1), of post repl None]
    assms(5) by simp

section \<open>The rules of the translator are keyword rules\<close>

lemma space_not_word: "is_space c \<Longrightarrow> \<not> is_word c"
  by (auto simp: is_space_def is_word_def)

lemma identifier_word_after:
  "is_identifier kw \<Longrightarrow> prefix kw s \<Longrightarrow> word_after s"
  by (cases kw) (auto simp: is_identifier_def word_after_def prefix_def)

lemma identifier_last: "is_identifier kw \<Longrightarrow> is_word (last kw)"
  by (simp add: is_identifier_def list_all_iff)

text \<open>A keyword that starts a text with a non-word end and a word character behind lies within the text.\<close>

lemma prefix_identifier_local:
  assumes "list_all is_word kw" and "p \<noteq> []" and "\<not> is_word (last p)"
  shows "prefix kw (p @ x) \<longleftrightarrow> prefix kw p"
proof
  assume "prefix kw (p @ x)"
  then consider "prefix kw p" | us where "kw = p @ us"
    by (auto simp: prefix_append)
  then show "prefix kw p"
  proof cases
    case 1
    then show ?thesis .
  next
    case 2
    then have "last p \<in> set kw" using assms(2) by simp
    then show ?thesis using assms(1,3) by (simp add: list_all_iff)
  qed
next
  assume "prefix kw p"
  then show "prefix kw (p @ x)" by (rule prefix_prefix)
qed

lemma prefix_identifier_shorter:
  assumes "list_all is_word kw" and "p \<noteq> []" and "\<not> is_word (last p)" and "prefix kw p"
  shows "length kw < length p"
proof -
  obtain t where t: "p = kw @ t" using assms(4) by (auto simp: prefix_def)
  have "t \<noteq> []"
  proof
    assume "t = []"
    then have "last p \<in> set kw" using t assms(2) by simp
    then show False using assms(1,3) by (simp add: list_all_iff)
  qed
  then show ?thesis using t by simp
qed

lemma word_after_append: "s \<noteq> [] \<Longrightarrow> word_after (s @ x) = word_after s"
  by (cases s) (simp_all add: word_after_def)

subsection \<open>\<open>\bkw\b\<close>\<close>

lemma match_at_rx_kw:
  "kw \<noteq> [] \<Longrightarrow> match_at (rx_kw kw) pv s =
     (if word_before pv \<noteq> word_after s \<and> prefix kw s
         \<and> word_before (Some (last kw)) \<noteq> word_after (drop (length kw) s)
      then Some ([], Some (last kw), drop (length kw) s) else None)"
  by (simp add: match_at_def rx_kw_def)

lemma keyword_rule_rx_kw:
  assumes "is_identifier kw"
  shows "keyword_rule (rx_kw kw) kw"
proof -
  have ne: "kw \<noteq> []" and aw: "list_all is_word kw" using assms by (simp_all add: is_identifier_def)
  have wl: "word_before (Some (last kw))"
    using identifier_last[OF assms] by (simp add: word_before_def)
  have 1: "\<not> word_before pv \<and> takeWhile is_word s = kw \<and> kw \<noteq> [] \<and> length s' < length s"
    if m: "match_at (rx_kw kw) pv s = Some (caps, pv', s')" for pv s caps pv' s'
  proof -
    from m have c: "word_before pv \<noteq> word_after s" "prefix kw s"
      "word_before (Some (last kw)) \<noteq> word_after (drop (length kw) s)" "s' = drop (length kw) s"
      unfolding match_at_rx_kw[OF ne] by (auto split: if_splits)
    obtain t where t: "s = kw @ t" using c(2) by (auto simp: prefix_def)
    have "\<not> word_after t" using c(3) wl t by simp
    then have "takeWhile is_word s = kw" unfolding t by (rule takeWhile_word_identifier[OF assms])
    moreover have "\<not> word_before pv" using c(1) identifier_word_after[OF assms c(2)] by simp
    moreover have "length s' < length s" using c(4) t ne by simp
    ultimately show ?thesis using ne by simp
  qed
  have 2: "match_at (rx_kw kw) pv (p @ x)
      = map_option (\<lambda>(c, pv', s'). (c, pv', s' @ x)) (match_at (rx_kw kw) pv p)"
    if p: "p \<noteq> []" "\<not> is_word (last p)" and x: "word_after x" for pv p x
  proof (cases "prefix kw p")
    case True
    have l: "length kw < length p" using prefix_identifier_shorter[OF aw p True] .
    then have d: "drop (length kw) (p @ x) = drop (length kw) p @ x" "drop (length kw) p \<noteq> []"
      by simp_all
    show ?thesis
      unfolding match_at_rx_kw[OF ne] prefix_identifier_local[OF aw p] d(1)
        word_after_append[OF p(1)] word_after_append[OF d(2)]
      by simp
  next
    case False
    then show ?thesis
      unfolding match_at_rx_kw[OF ne] prefix_identifier_local[OF aw p] by simp
  qed
  have 3: "match_at (rx_kw kw) pv s = match_at (rx_kw kw) pv2 s"
    if "word_before pv = word_before pv2" for pv pv2 s
    using that unfolding match_at_rx_kw[OF ne] by simp
  show ?thesis unfolding keyword_rule_def using 1 2 3 by blast
qed

lemma keeps_end_rx_kw:
  assumes "is_identifier kw" and "repl \<noteq> []"
  shows "keeps_end (rx_kw kw) repl"
proof -
  have ne: "kw \<noteq> []" using assms by (simp add: is_identifier_def)
  have "is_word (last s)" if m: "match_at (rx_kw kw) pv s = Some (caps, pv', [])" for pv s caps pv'
  proof -
    from m have c: "prefix kw s" "drop (length kw) s = []"
      unfolding match_at_rx_kw[OF ne] by (auto split: if_splits)
    then have "s = kw" by (auto simp: prefix_def)
    then show ?thesis using identifier_last[OF assms(1)] by simp
  qed
  then show ?thesis unfolding keeps_end_def using assms(2) by blast
qed


subsection \<open>\<open>\bkw(\<close>, \<open>\bkw[\<close>, \<open>\bkw{\<close>\<close>

lemma match_at_rx_kw_lit:
  "match_at (rx_kw_lit kw [c]) pv s =
     (if word_before pv \<noteq> word_after s \<and> prefix (kw @ [c]) s
      then Some ([], Some c, drop (Suc (length kw)) s) else None)"
  by (simp add: match_at_def rx_kw_lit_def)

lemma prefix_snoc_local:
  assumes "list_all is_word kw" and "p \<noteq> []" and "\<not> is_word (last p)" and "word_after x"
    and "\<not> is_word c"
  shows "prefix (kw @ [c]) (p @ x) \<longleftrightarrow> prefix (kw @ [c]) p"
proof
  assume a: "prefix (kw @ [c]) (p @ x)"
  show "prefix (kw @ [c]) p"
  proof (rule ccontr)
    assume n: "\<not> prefix (kw @ [c]) p"
    with a obtain us where us: "kw @ [c] = p @ us" "prefix us x"
      by (auto simp: prefix_append)
    have "us \<noteq> []" using n us(1) by auto
    have "butlast (kw @ [c]) = butlast (p @ us)" using us(1) by simp
    then have "kw = p @ butlast us" using \<open>us \<noteq> []\<close> by (simp add: butlast_append)
    then have "last p \<in> set kw" using assms(2) by simp
    then show False using assms(1,3) by (simp add: list_all_iff)
  qed
next
  assume "prefix (kw @ [c]) p"
  then show "prefix (kw @ [c]) (p @ x)" by (rule prefix_prefix)
qed

lemma keyword_rule_rx_kw_lit:
  assumes "is_identifier kw" and "\<not> is_word c"
  shows "keyword_rule (rx_kw_lit kw [c]) kw"
proof -
  have ne: "kw \<noteq> []" and aw: "list_all is_word kw" using assms by (simp_all add: is_identifier_def)
  have 1: "\<not> word_before pv \<and> takeWhile is_word s = kw \<and> kw \<noteq> [] \<and> length s' < length s"
    if m: "match_at (rx_kw_lit kw [c]) pv s = Some (caps, pv', s')" for pv s caps pv' s'
  proof -
    from m have c: "word_before pv \<noteq> word_after s" "prefix (kw @ [c]) s"
      "s' = drop (Suc (length kw)) s"
      unfolding match_at_rx_kw_lit by (auto split: if_splits)
    obtain t where t: "s = kw @ c # t" using c(2) by (auto simp: prefix_def)
    have "\<not> word_after (c # t)" using assms(2) by (simp add: word_after_def)
    then have "takeWhile is_word s = kw" unfolding t by (rule takeWhile_word_identifier[OF assms(1)])
    moreover have "prefix kw s" using t by simp
    then have "\<not> word_before pv" using c(1) identifier_word_after[OF assms(1)] by simp
    moreover have "length s' < length s" using c(3) t by simp
    ultimately show ?thesis using ne by simp
  qed
  have 2: "match_at (rx_kw_lit kw [c]) pv (p @ x)
      = map_option (\<lambda>(c, pv', s'). (c, pv', s' @ x)) (match_at (rx_kw_lit kw [c]) pv p)"
    if p: "p \<noteq> []" "\<not> is_word (last p)" and x: "word_after x" for pv p x
  proof (cases "prefix (kw @ [c]) p")
    case True
    then have "Suc (length kw) \<le> length p" by (auto simp: prefix_def)
    then have d: "drop (Suc (length kw)) (p @ x) = drop (Suc (length kw)) p @ x" by simp
    show ?thesis
      unfolding match_at_rx_kw_lit prefix_snoc_local[OF aw p x assms(2)] d
        word_after_append[OF p(1)]
      by simp
  next
    case False
    then show ?thesis
      unfolding match_at_rx_kw_lit prefix_snoc_local[OF aw p x assms(2)] by simp
  qed
  have 3: "match_at (rx_kw_lit kw [c]) pv s = match_at (rx_kw_lit kw [c]) pv2 s"
    if "word_before pv = word_before pv2" for pv pv2 s
    using that unfolding match_at_rx_kw_lit by simp
  show ?thesis unfolding keyword_rule_def using 1 2 3 by blast
qed

lemma keeps_end_not_word:
  assumes "repl \<noteq> []" and "\<not> is_word (last repl)"
  shows "keeps_end r repl"
  unfolding keeps_end_def using assms by blast

subsection \<open>\<open>\bkw\s+\<close>\<close>

lemma match_at_rx_kw_spaces:
  "kw \<noteq> [] \<Longrightarrow> match_at (rx_kw_spaces kw) pv s =
     (if word_before pv \<noteq> word_after s \<and> prefix kw s
      then (case plus_greedy is_space (Some (last kw)) (drop (length kw) s) of
              [] \<Rightarrow> None
            | (pv', s') # _ \<Rightarrow> Some ([], pv', s'))
      else None)"
  by (simp add: match_at_def rx_kw_spaces_def split: list.splits)

lemma plus_greedy_space_append:
  assumes "word_after x"
  shows "plus_greedy is_space pv (t @ x) = map (\<lambda>(pv', s'). (pv', s' @ x)) (plus_greedy is_space pv t)"
proof (induction t arbitrary: pv)
  case Nil
  obtain c cs where "x = c # cs" "is_word c"
    using assms by (cases x) (simp_all add: word_after_def)
  then show ?case using space_not_word[of c] by auto
next
  case (Cons c t)
  then show ?case by simp
qed

lemma keyword_rule_rx_kw_spaces:
  assumes "is_identifier kw"
  shows "keyword_rule (rx_kw_spaces kw) kw"
proof -
  have ne: "kw \<noteq> []" and aw: "list_all is_word kw" using assms by (simp_all add: is_identifier_def)
  have 1: "\<not> word_before pv \<and> takeWhile is_word s = kw \<and> kw \<noteq> [] \<and> length s' < length s"
    if m: "match_at (rx_kw_spaces kw) pv s = Some (caps, pv', s')" for pv s caps pv' s'
  proof -
    from m have c: "word_before pv \<noteq> word_after s" "prefix kw s"
      and g: "(pv', s') \<in> set (plus_greedy is_space (Some (last kw)) (drop (length kw) s))"
      unfolding match_at_rx_kw_spaces[OF ne] by (auto split: if_splits list.splits)
    obtain t where t: "s = kw @ t" using c(2) by (auto simp: prefix_def)
    from plus_greedy_sound[OF g] obtain u where
      u: "t = u @ s'" "u \<noteq> []" "list_all is_space u" using t by auto
    obtain a v where "u = a # v" using u(2) by (cases u) auto
    then have "t = a # v @ s'" "is_space a" using u(1,3) by simp_all
    then have "\<not> word_after t" using space_not_word[of a] by (simp add: word_after_def)
    then have "takeWhile is_word s = kw" unfolding t by (rule takeWhile_word_identifier[OF assms])
    moreover have "\<not> word_before pv" using c(1) identifier_word_after[OF assms c(2)] by simp
    moreover have "length s' < length s" using t u(1,2) by simp
    ultimately show ?thesis using ne by simp
  qed
  have 2: "match_at (rx_kw_spaces kw) pv (p @ x)
      = map_option (\<lambda>(c, pv', s'). (c, pv', s' @ x)) (match_at (rx_kw_spaces kw) pv p)"
    if p: "p \<noteq> []" "\<not> is_word (last p)" and x: "word_after x" for pv p x
  proof (cases "prefix kw p")
    case True
    have l: "length kw < length p" using prefix_identifier_shorter[OF aw p True] .
    then have d: "drop (length kw) (p @ x) = drop (length kw) p @ x" by simp
    show ?thesis
      unfolding match_at_rx_kw_spaces[OF ne] prefix_identifier_local[OF aw p] d
        word_after_append[OF p(1)] plus_greedy_space_append[OF x]
      by (auto split: list.splits)
  next
    case False
    then show ?thesis
      unfolding match_at_rx_kw_spaces[OF ne] prefix_identifier_local[OF aw p] by simp
  qed
  have 3: "match_at (rx_kw_spaces kw) pv s = match_at (rx_kw_spaces kw) pv2 s"
    if "word_before pv = word_before pv2" for pv pv2 s
    using that unfolding match_at_rx_kw_spaces[OF ne] by simp
  show ?thesis unfolding keyword_rule_def using 1 2 3 by blast
qed

section \<open>The chains of replacements\<close>

lemma splits_at_replace:
  assumes "keyword_rule r kw" and "keeps_end r repl" and "is_identifier w" and "w \<noteq> kw"
    and "splits_at w s pre post"
  shows "splits_at w (replace s r repl) (replace pre r repl) (replace post r repl)"
  using replace_split[OF assms(1-4), of s pre post] assms(5) unfolding splits_at_def by simp

lemma splits_at_rx_kw:
  assumes "is_identifier kw" and "repl \<noteq> []" and "is_identifier w" and "w \<noteq> kw"
    and "splits_at w s pre post"
  shows "splits_at w (replace s (rx_kw kw) repl) (replace pre (rx_kw kw) repl)
           (replace post (rx_kw kw) repl)"
  using splits_at_replace[OF keyword_rule_rx_kw[OF assms(1)] keeps_end_rx_kw[OF assms(1,2)]
      assms(3,4,5)] .

lemma splits_at_rx_kw_lit:
  assumes "is_identifier kw" and "\<not> is_word c" and "repl \<noteq> []" and "\<not> is_word (last repl)"
    and "is_identifier w" and "w \<noteq> kw" and "splits_at w s pre post"
  shows "splits_at w (replace s (rx_kw_lit kw [c]) repl) (replace pre (rx_kw_lit kw [c]) repl)
           (replace post (rx_kw_lit kw [c]) repl)"
  using splits_at_replace[OF keyword_rule_rx_kw_lit[OF assms(1,2)] keeps_end_not_word[OF assms(3,4)]
      assms(5,6,7)] .

lemma splits_at_rx_kw_spaces:
  assumes "is_identifier kw" and "repl \<noteq> []" and "\<not> is_word (last repl)"
    and "is_identifier w" and "w \<noteq> kw" and "splits_at w s pre post"
  shows "splits_at w (replace s (rx_kw_spaces kw) repl) (replace pre (rx_kw_spaces kw) repl)
           (replace post (rx_kw_spaces kw) repl)"
  using splits_at_replace[OF keyword_rule_rx_kw_spaces[OF assms(1)] keeps_end_not_word[OF assms(2,3)]
      assms(4,5,6)] .

lemmas splits_at_rules = splits_at_rx_kw splits_at_rx_kw_lit splits_at_rx_kw_spaces

lemma not_rule_keyword:
  assumes "w \<notin> set rule_keywords"
  shows "w \<noteq> ''theory''" "w \<noteq> ''risk''" "w \<noteq> ''ghost''" "w \<noteq> ''money''" "w \<noteq> ''island''"
    "w \<noteq> ''girl''" "w \<noteq> ''mission''" "w \<noteq> ''weapon''" "w \<noteq> ''truestory''"
    "w \<noteq> ''falsestory''" "w \<noteq> ''truth''" "w \<noteq> ''lie''" "w \<noteq> ''universe''" "w \<noteq> ''alibi''"
    "w \<noteq> ''files''" "w \<noteq> ''suicide''" "w \<noteq> ''escape''"
  using assms unfolding rule_keywords_def by auto

lemma substVariable_splits:
  assumes "is_identifier w" and "w \<notin> set rule_keywords" and "splits_at w s pre post"
  shows "splits_at w (substVariable s) (substVariable pre) (substVariable post)"
  unfolding substVariable_def Let_def
  by (intro splits_at_rules assms(1,3) not_rule_keyword[OF assms(2)])
    (simp_all add: is_identifier_def is_word_def)

lemma substExpression_splits:
  assumes "is_identifier w" and "w \<notin> set rule_keywords" and "splits_at w s pre post"
  shows "splits_at w (substExpression s) (substExpression pre) (substExpression post)"
  unfolding substExpression_def Let_def
  by (intro splits_at_rules assms(1,3) not_rule_keyword[OF assms(2)])
    (simp_all add: is_identifier_def is_word_def)


text \<open>
  C5: the replacements match whole words. An identifier of the line that is not itself a
  keyword of a rule, such as \<open>truthful\<close>, which contains the keyword \<open>truth\<close>, stays as
  it is: the rules of a variable line, the rules of an expression line, and the rule that
  turns \<open>truth\<close> into \<open>true\<close> rewrite the text before it and the text behind it and
  leave the identifier between them.
\<close>

theorem identifiers_not_rewritten:
  assumes "is_identifier w" and "w \<notin> set rule_keywords"
    and "\<not> ends_with_word pre" and "\<not> word_after post"
  shows "substVariable (pre @ w @ post) = substVariable pre @ w @ substVariable post
       \<and> substExpression (pre @ w @ post) = substExpression pre @ w @ substExpression post
       \<and> replace (pre @ w @ post) (rx_kw ''truth'') ''true''
           = replace pre (rx_kw ''truth'') ''true'' @ w @ replace post (rx_kw ''truth'') ''true''"
proof -
  have s: "splits_at w (pre @ w @ post) pre post" using assms(3,4) by (simp add: splits_at_def)
  have "splits_at w (replace (pre @ w @ post) (rx_kw ''truth'') ''true'')
      (replace pre (rx_kw ''truth'') ''true'') (replace post (rx_kw ''truth'') ''true'')"
    by (intro splits_at_rules assms(1) s not_rule_keyword[OF assms(2)])
      (simp_all add: is_identifier_def is_word_def)
  then show ?thesis
    using substVariable_splits[OF assms(1,2) s] substExpression_splits[OF assms(1,2) s]
    by (simp add: splits_at_def)
qed

theorem identifiers_not_rewritten_witness:
  "is_identifier ''truthful'' \<and> ''truthful'' \<notin> set rule_keywords
   \<and> replace ''x = truthful + truth'' (rx_kw ''truth'') ''true'' = ''x = truthful + true''
   \<and> convertVariable ''x = truthful + truth'' [] = ''const x = truthful + true;''"
proof -
  have h1: "is_identifier ''truthful''" by (simp add: is_identifier_def is_word_def)
  have h2: "''truthful'' \<notin> set rule_keywords" by (simp add: rule_keywords_def)
  have h3: "\<not> ends_with_word ''x = ''" by (simp add: ends_with_word_def is_word_def)
  have h4: "\<not> word_after '' + truth''" by (simp add: word_after_def is_word_def)
  have e: "substVariable ''x = '' = ''x = ''" "substVariable '' + truth'' = '' + true''"
    "replace ''x = '' (rx_kw ''truth'') ''true'' = ''x = ''"
    "replace '' + truth'' (rx_kw ''truth'') ''true'' = '' + true''"
    by code_simp+
  show ?thesis
    using identifiers_not_rewritten[OF h1 h2 h3 h4] h1 h2
    unfolding e convertVariable_def by simp
qed

section \<open>Keywords are rewritten\<close>

text \<open>The character before the position behind a success is the last one the success took.\<close>

lemma run_prev:
  "(caps', pv', s') \<in> set (run r (caps, pv, s)) \<Longrightarrow>
     \<exists>u. s = u @ s' \<and> pv' = (if u = [] then pv else Some (last u))"
proof (induction r arbitrary: caps pv s caps' pv' s')
  case (Lit l)
  show ?case
  proof (cases "l = []")
    case True
    then have "s = [] @ s' \<and> pv' = (if [] = ([]::string) then pv else Some (last []))"
      using Lit by simp
    then show ?thesis by blast
  next
    case False
    then have "prefix l s" and e: "pv' = Some (last l)" "s' = drop (length l) s"
      using Lit by (auto split: if_splits)
    then have "take (length l) s = l" by (auto simp: prefix_def)
    then have "s = l @ s'" using e(2) by (metis append_take_drop_id)
    then have "s = l @ s' \<and> pv' = (if l = [] then pv else Some (last l))" using e False by simp
    then show ?thesis by blast
  qed
next
  case WordB
  then have "s = [] @ s' \<and> pv' = (if [] = ([]::string) then pv else Some (last []))"
    by (auto split: if_splits)
  then show ?case by blast
next
  case (Plus p)
  then have "(pv', s') \<in> set (plus_greedy p pv s)" by auto
  from plus_greedy_sound[OF this] obtain u where "s = u @ s'" "u \<noteq> []" "pv' = Some (last u)"
    by blast
  then have "s = u @ s' \<and> pv' = (if u = [] then pv else Some (last u))" by simp
  then show ?case by blast
next
  case (LazyStar p)
  then have "(pv', s') \<in> set (star_lazy p pv s)" by auto
  from star_lazy_sound[OF this] show ?case by blast
next
  case (Seq a b)
  from Seq.prems obtain c1 p1 s1 where
    m1: "(c1, p1, s1) \<in> set (run a (caps, pv, s))" and m2: "(caps', pv', s') \<in> set (run b (c1, p1, s1))"
    by auto
  from Seq.IH(1)[OF m1] obtain u1 where u1: "s = u1 @ s1" "p1 = (if u1 = [] then pv else Some (last u1))"
    by blast
  from Seq.IH(2)[OF m2] obtain u2 where u2: "s1 = u2 @ s'" "pv' = (if u2 = [] then p1 else Some (last u2))"
    by blast
  have "s = (u1 @ u2) @ s' \<and> pv' = (if u1 @ u2 = [] then pv else Some (last (u1 @ u2)))"
    using u1 u2 by simp
  then show ?case by blast
next
  case (Alt a b)
  from Alt.prems consider "(caps', pv', s') \<in> set (run a (caps, pv, s))"
    | "(caps', pv', s') \<in> set (run b (caps, pv, s))" by auto
  then show ?case using Alt.IH by cases blast+
next
  case (Grp a)
  from Grp.prems obtain c1 where "(c1, pv', s') \<in> set (run a (caps, pv, s))" by auto
  from Grp.IH[OF this] show ?case .
qed

lemma match_at_prev:
  assumes "match_at r pv s = Some (caps', pv', s')"
  shows "\<exists>u. s = u @ s' \<and> pv' = (if u = [] then pv else Some (last u))"
  using run_prev[OF match_at_in_run[OF assms]] .

lemma replace_from_before:
  assumes "keyword_rule r kw" and "word_before pv = word_before pv2"
  shows "replace_from r repl pv s = replace_from r repl pv2 s"
  using keyword_rule_before[OF assms, of s]
  by (subst replace_from.simps, subst (2) replace_from.simps) simp

text \<open>
  A text that does not end with a word character, followed by a word character: the
  replacement works on the text and then goes on behind it.
\<close>

lemma replace_from_prefix:
  assumes r: "keyword_rule r kw" and x: "word_after x"
  shows "pre \<noteq> [] \<Longrightarrow> \<not> is_word (last pre) \<Longrightarrow>
    replace_from r repl pv (pre @ x) =
      replace_from r repl pv pre @ replace_from r repl (Some (last pre)) x"
proof (induction pre arbitrary: pv rule: length_induct)
  case (1 pre)
  obtain c cs where Cons: "pre = c # cs" using "1.prems"(1) by (cases pre) auto
  have loc: "match_at r pv (pre @ x)
      = map_option (\<lambda>(c, pv', s'). (c, pv', s' @ x)) (match_at r pv pre)"
    using keyword_rule_local[OF r "1.prems" x] .
  show ?case
  proof (cases "match_at r pv pre")
    case None
    then have n: "match_at r pv (c # cs @ x) = None" using loc Cons by simp
    have e1: "replace_from r repl pv (pre @ x) = c # replace_from r repl (Some c) (cs @ x)"
      using replace_from_no_match[OF n, of repl] Cons by simp
    have e2: "replace_from r repl pv pre = c # replace_from r repl (Some c) cs"
      using replace_from_no_match[of r pv c cs repl] None Cons by simp
    show ?thesis
    proof (cases "cs = []")
      case True
      then show ?thesis using e1 e2 Cons by (simp add: replace_from_Nil[OF r])
    next
      case False
      then have "\<not> is_word (last cs)" and "last pre = last cs" using "1.prems"(2) Cons by simp_all
      then show ?thesis using "1.IH" Cons False e1 e2 by simp
    qed
  next
    case (Some st)
    obtain caps pv' s' where st: "st = (caps, pv', s')" by (cases st) auto
    have m: "match_at r pv pre = Some (caps, pv', s')" using Some st by simp
    have len: "length s' < length pre" using keyword_rule_matchD(4)[OF r m] .
    obtain u where u: "pre = u @ s'" "pv' = (if u = [] then pv else Some (last u))"
      using match_at_prev[OF m] by blast
    have un: "u \<noteq> []" using u(1) len by auto
    have m2: "match_at r pv (pre @ x) = Some (caps, pv', s' @ x)" using loc m by simp
    have e1: "replace_from r repl pv (pre @ x) = repl @ replace_from r repl pv' (s' @ x)"
      using replace_from_match[OF m2] len by simp
    have e2: "replace_from r repl pv pre = repl @ replace_from r repl pv' s'"
      using replace_from_match[OF m len] .
    show ?thesis
    proof (cases "s' = []")
      case True
      then have "pv' = Some (last pre)" using u un by simp
      then show ?thesis using e1 e2 True by (simp add: replace_from_Nil[OF r])
    next
      case False
      then have "\<not> is_word (last s')" and "last pre = last s'" using "1.prems"(2) u(1) by simp_all
      then show ?thesis using "1.IH" len False e1 e2 by simp
    qed
  qed
qed

text \<open>The same from the start of a line, where the text before may be empty.\<close>

lemma replace_prefix:
  assumes r: "keyword_rule r kw" and x: "word_after x" and pre: "\<not> ends_with_word pre"
  shows "replace (pre @ x) r repl = replace pre r repl @ replace x r repl"
proof (cases "pre = []")
  case True
  then show ?thesis by (simp add: replace_def replace_from_Nil[OF r])
next
  case False
  then have l: "\<not> is_word (last pre)" using pre by (simp add: ends_with_word_def)
  have "word_before (Some (last pre)) = word_before None" using l by (simp add: word_before_def)
  then have "replace_from r repl (Some (last pre)) x = replace_from r repl None x"
    by (rule replace_from_before[OF r])
  then show ?thesis unfolding replace_def using replace_from_prefix[OF r x False l, of repl None]
    by simp
qed

lemma substVariable_rules: "substVariable s = apply_rules variable_rules s"
  by (simp add: substVariable_def apply_rules_def variable_rules_def Let_def)

lemma substExpression_rules: "substExpression s = apply_rules expression_rules s"
  by (simp add: substExpression_def apply_rules_def expression_rules_def Let_def)

lemma apply_rules_Nil: "apply_rules [] s = s"
  by (simp add: apply_rules_def)

lemma apply_rules_Cons: "apply_rules ((r, repl) # rs) s = apply_rules rs (replace s r repl)"
  by (simp add: apply_rules_def)

lemma apply_rules_append: "apply_rules (xs @ ys) s = apply_rules ys (apply_rules xs s)"
  by (simp add: apply_rules_def)

text \<open>The keyword where its rule stands.\<close>

lemma replace_keyword:
  assumes "is_identifier kw" and "\<not> word_after post"
  shows "replace (kw @ post) (rx_kw kw) repl = repl @ replace post (rx_kw kw) repl"
proof -
  have ne: "kw \<noteq> []" using assms(1) by (simp add: is_identifier_def)
  have "word_after (kw @ post)" using identifier_word_after[OF assms(1), of "kw @ post"] by simp
  moreover have "word_before (Some (last kw))"
    using identifier_last[OF assms(1)] by (simp add: word_before_def)
  ultimately have m: "match_at (rx_kw kw) None (kw @ post) = Some ([], Some (last kw), post)"
    using assms(2) by (simp add: match_at_rx_kw[OF ne] word_before_def)
  have "replace_from (rx_kw kw) repl None (kw @ post)
      = repl @ replace_from (rx_kw kw) repl (Some (last kw)) post"
    using replace_from_match[OF m] ne by simp
  then show ?thesis
    using replace_from_context[OF keyword_rule_rx_kw[OF assms(1)] assms(2), of repl "Some (last kw)"]
    by (simp add: replace_def)
qed

lemma replace_keyword_lit:
  assumes "is_identifier kw" and "\<not> is_word c"
  shows "replace (kw @ c # rest) (rx_kw_lit kw [c]) repl = repl @ replace rest (rx_kw_lit kw [c]) repl"
proof -
  have "word_after (kw @ c # rest)"
    using identifier_word_after[OF assms(1), of "kw @ c # rest"] by simp
  then have m: "match_at (rx_kw_lit kw [c]) None (kw @ c # rest) = Some ([], Some c, rest)"
    by (simp add: match_at_rx_kw_lit word_before_def)
  have "replace_from (rx_kw_lit kw [c]) repl None (kw @ c # rest)
      = repl @ replace_from (rx_kw_lit kw [c]) repl (Some c) rest"
    using replace_from_match[OF m] by simp
  moreover have "word_before (Some c) = word_before None"
    using assms(2) by (simp add: word_before_def)
  ultimately show ?thesis
    using replace_from_before[OF keyword_rule_rx_kw_lit[OF assms], of "Some c" None repl rest]
    by (simp add: replace_def)
qed

text \<open>A non-word character at the start of a text is copied.\<close>

lemma replace_nonword_Cons:
  assumes "keyword_rule r kw" and "\<not> is_word c"
  shows "replace (c # rest) r repl = c # replace rest r repl"
proof -
  have "takeWhile is_word (c # rest) = []" using assms(2) by simp
  moreover have "kw \<noteq> [] \<or> match_at r None (c # rest) = None"
    using keyword_rule_matchD(3)[OF assms(1)] by (metis not_Some_eq prod_cases3)
  ultimately have "match_at r None (c # rest) = None"
    using keyword_rule_no_match[OF assms(1)] by metis
  then have "replace_from r repl None (c # rest) = c # replace_from r repl (Some c) rest"
    by (rule replace_from_no_match)
  moreover have "word_before (Some c) = word_before None"
    using assms(2) by (simp add: word_before_def)
  ultimately show ?thesis
    using replace_from_before[OF assms(1), of "Some c" None repl rest] by (simp add: replace_def)
qed

subsection \<open>Along a list of rules\<close>

lemma rule_keeps_rx_kw:
  "is_identifier kw \<Longrightarrow> repl \<noteq> [] \<Longrightarrow> w \<noteq> kw \<Longrightarrow> rule_keeps w (rx_kw kw, repl)"
  unfolding rule_keeps_def using keyword_rule_rx_kw keeps_end_rx_kw by auto

lemma rule_keeps_rx_kw_lit:
  "is_identifier kw \<Longrightarrow> \<not> is_word c \<Longrightarrow> repl \<noteq> [] \<Longrightarrow> \<not> is_word (last repl) \<Longrightarrow> w \<noteq> kw
     \<Longrightarrow> rule_keeps w (rx_kw_lit kw [c], repl)"
  unfolding rule_keeps_def using keyword_rule_rx_kw_lit keeps_end_not_word by auto

lemma rule_keeps_rx_kw_spaces:
  "is_identifier kw \<Longrightarrow> repl \<noteq> [] \<Longrightarrow> \<not> is_word (last repl) \<Longrightarrow> w \<noteq> kw
     \<Longrightarrow> rule_keeps w (rx_kw_spaces kw, repl)"
  unfolding rule_keeps_def using keyword_rule_rx_kw_spaces keeps_end_not_word by auto

lemma apply_rules_splits:
  assumes "is_identifier w"
  shows "list_all (rule_keeps w) rs \<Longrightarrow> splits_at w s pre post \<Longrightarrow>
    splits_at w (apply_rules rs s) (apply_rules rs pre) (apply_rules rs post)"
proof (induction rs arbitrary: s pre post)
  case Nil
  then show ?case by (simp add: apply_rules_Nil)
next
  case (Cons rule rs)
  obtain r repl where rule: "rule = (r, repl)" by (cases rule) auto
  from Cons.prems(1) obtain kw where k: "keyword_rule r kw" "keeps_end r repl" "w \<noteq> kw"
    unfolding rule rule_keeps_def by auto
  have "splits_at w (replace s r repl) (replace pre r repl) (replace post r repl)"
    using splits_at_replace[OF k(1,2) assms k(3) Cons.prems(2)] .
  then show ?case using Cons.IH Cons.prems(1) unfolding rule by (simp add: apply_rules_Cons)
qed

lemma apply_rules_nonword_Cons:
  assumes "\<not> is_word c"
  shows "list_all (rule_keeps w) rs \<Longrightarrow> apply_rules rs (c # rest) = c # apply_rules rs rest"
proof (induction rs arbitrary: rest)
  case Nil
  then show ?case by (simp add: apply_rules_Nil)
next
  case (Cons rule rs)
  obtain r repl where rule: "rule = (r, repl)" by (cases rule) auto
  from Cons.prems(1) obtain kw where k: "keyword_rule r kw"
    unfolding rule rule_keeps_def by auto
  show ?case using Cons.IH Cons.prems(1) unfolding rule
    by (simp add: apply_rules_Cons replace_nonword_Cons[OF k assms])
qed

text \<open>The rule of a keyword fires between rules that leave the keyword and its replacement alone.\<close>

lemma apply_rules_keyword:
  assumes rs: "rs = before @ (rx_kw kw, lit) # after"
    and b: "list_all (rule_keeps kw) before" and a: "list_all (rule_keeps lit) after"
    and kw: "is_identifier kw" and lit: "is_identifier lit"
    and pre: "\<not> ends_with_word pre" and post: "\<not> word_after post"
  shows "apply_rules rs (pre @ kw @ post) = apply_rules rs pre @ lit @ apply_rules rs post"
proof -
  let ?B = "apply_rules before" and ?r = "rx_kw kw"
  let ?F = "\<lambda>t. replace (?B t) ?r lit"
  have ne: "lit \<noteq> []" using lit by (simp add: is_identifier_def)
  have k: "keyword_rule ?r kw" using keyword_rule_rx_kw[OF kw] .
  have "splits_at kw (pre @ kw @ post) pre post" using pre post by (simp add: splits_at_def)
  from apply_rules_splits[OF kw b this]
  have s1: "?B (pre @ kw @ post) = ?B pre @ kw @ ?B post" "\<not> ends_with_word (?B pre)"
    "\<not> word_after (?B post)" by (simp_all add: splits_at_def)
  have "word_after (kw @ ?B post)" using identifier_word_after[OF kw, of "kw @ ?B post"] by simp
  then have "?F (pre @ kw @ post) = ?F pre @ replace (kw @ ?B post) ?r lit"
    unfolding s1(1) using replace_prefix[OF k _ s1(2)] by simp
  then have f: "?F (pre @ kw @ post) = ?F pre @ lit @ ?F post"
    using replace_keyword[OF kw s1(3)] by simp
  have "\<not> ends_with_word (?F pre)"
    unfolding replace_def using replace_from_ends[OF k keeps_end_rx_kw[OF kw ne] s1(2)] .
  moreover have "\<not> word_after (?F post)"
    unfolding replace_def using replace_from_starts[OF k s1(3)] .
  ultimately have "splits_at lit (?F (pre @ kw @ post)) (?F pre) (?F post)"
    using f by (simp add: splits_at_def)
  from apply_rules_splits[OF lit a this]
  have "apply_rules after (?F (pre @ kw @ post))
      = apply_rules after (?F pre) @ lit @ apply_rules after (?F post)"
    by (simp add: splits_at_def)
  then show ?thesis unfolding rs by (simp add: apply_rules_append apply_rules_Cons)
qed

lemma apply_rules_keyword_lit:
  assumes rs: "rs = before @ (rx_kw_lit kw [c], fn @ [c']) # after"
    and b: "list_all (rule_keeps kw) before" and a: "list_all (rule_keeps fn) after"
    and kw: "is_identifier kw" and fn: "is_identifier fn"
    and c: "\<not> is_word c" and c': "\<not> is_word c'"
    and pre: "\<not> ends_with_word pre"
  shows "apply_rules rs (pre @ kw @ c # rest) = apply_rules rs pre @ fn @ c' # apply_rules rs rest"
proof -
  let ?B = "apply_rules before" and ?r = "rx_kw_lit kw [c]"
  let ?F = "\<lambda>t. replace (?B t) ?r (fn @ [c'])"
  have k: "keyword_rule ?r kw" using keyword_rule_rx_kw_lit[OF kw c] .
  have ke: "keeps_end ?r (fn @ [c'])" using c' by (intro keeps_end_not_word) simp_all
  have "splits_at kw (pre @ kw @ c # rest) pre (c # rest)"
    using pre c by (simp add: splits_at_def word_after_def)
  from apply_rules_splits[OF kw b this]
  have s1: "?B (pre @ kw @ c # rest) = ?B pre @ kw @ c # ?B rest" "\<not> ends_with_word (?B pre)"
    by (simp_all add: splits_at_def apply_rules_nonword_Cons[OF c b])
  have "word_after (kw @ c # ?B rest)"
    using identifier_word_after[OF kw, of "kw @ c # ?B rest"] by simp
  then have "?F (pre @ kw @ c # rest) = ?F pre @ replace (kw @ c # ?B rest) ?r (fn @ [c'])"
    unfolding s1(1) using replace_prefix[OF k _ s1(2)] by simp
  then have f: "?F (pre @ kw @ c # rest) = ?F pre @ fn @ c' # ?F rest"
    using replace_keyword_lit[OF kw c] by simp
  have "\<not> ends_with_word (?F pre)"
    unfolding replace_def using replace_from_ends[OF k ke s1(2)] .
  then have "splits_at fn (?F (pre @ kw @ c # rest)) (?F pre) (c' # ?F rest)"
    using f c' by (simp add: splits_at_def word_after_def)
  from apply_rules_splits[OF fn a this]
  have "apply_rules after (?F (pre @ kw @ c # rest))
      = apply_rules after (?F pre) @ fn @ c' # apply_rules after (?F rest)"
    by (simp add: splits_at_def apply_rules_nonword_Cons[OF c' a])
  then show ?thesis unfolding rs by (simp add: apply_rules_append apply_rules_Cons)
qed

subsection \<open>The rules of the translator\<close>

lemma identifier_facts:
  "is_identifier ''theory''" "is_identifier ''risk''" "is_identifier ''ghost''"
  "is_identifier ''money''" "is_identifier ''island''" "is_identifier ''girl''"
  "is_identifier ''mission''" "is_identifier ''weapon''" "is_identifier ''truestory''"
  "is_identifier ''falsestory''" "is_identifier ''truth''" "is_identifier ''lie''"
  "is_identifier ''universe''" "is_identifier ''alibi''" "is_identifier ''files''"
  "is_identifier ''suicide''" "is_identifier ''escape''"
  "is_identifier ''Number''" "is_identifier ''parseFloat''" "is_identifier ''String''"
  "is_identifier ''Boolean''" "is_identifier ''true''" "is_identifier ''false''"
  "is_identifier ''null''"
  by (simp_all add: is_identifier_def is_word_def)

lemma nonword_facts:
  "\<not> is_word CHR ''(''" "\<not> is_word CHR ''[''" "\<not> is_word CHR ''{''" "\<not> is_word CHR '' ''"
  by (simp_all add: is_word_def)

lemmas rule_keeps_intros = rule_keeps_rx_kw rule_keeps_rx_kw_lit rule_keeps_rx_kw_spaces

lemma variable_theory:
  assumes "\<not> ends_with_word pre"
  shows "substVariable (pre @ ''theory'' @ ''('' @ rest) = substVariable pre @ ''Number'' @ ''('' @ substVariable rest"
proof -
  have "apply_rules variable_rules (pre @ ''theory'' @ CHR ''('' # rest)
      = apply_rules variable_rules pre @ ''Number'' @ CHR ''('' # apply_rules variable_rules rest"
    by (rule apply_rules_keyword_lit[where before = "take 0 variable_rules"
          and after = "drop 1 variable_rules", OF _ _ _ _ _ _ _ assms])
      (auto simp: variable_rules_def identifier_facts nonword_facts intro!: rule_keeps_intros)
  then show ?thesis by (simp add: substVariable_rules)
qed

lemma variable_risk:
  assumes "\<not> ends_with_word pre"
  shows "substVariable (pre @ ''risk'' @ ''('' @ rest) = substVariable pre @ ''parseFloat'' @ ''('' @ substVariable rest"
proof -
  have "apply_rules variable_rules (pre @ ''risk'' @ CHR ''('' # rest)
      = apply_rules variable_rules pre @ ''parseFloat'' @ CHR ''('' # apply_rules variable_rules rest"
    by (rule apply_rules_keyword_lit[where before = "take 1 variable_rules"
          and after = "drop 2 variable_rules", OF _ _ _ _ _ _ _ assms])
      (auto simp: variable_rules_def identifier_facts nonword_facts intro!: rule_keeps_intros)
  then show ?thesis by (simp add: substVariable_rules)
qed

lemma variable_ghost:
  assumes "\<not> ends_with_word pre"
  shows "substVariable (pre @ ''ghost'' @ ''('' @ rest) = substVariable pre @ ''String'' @ ''('' @ substVariable rest"
proof -
  have "apply_rules variable_rules (pre @ ''ghost'' @ CHR ''('' # rest)
      = apply_rules variable_rules pre @ ''String'' @ CHR ''('' # apply_rules variable_rules rest"
    by (rule apply_rules_keyword_lit[where before = "take 2 variable_rules"
          and after = "drop 3 variable_rules", OF _ _ _ _ _ _ _ assms])
      (auto simp: variable_rules_def identifier_facts nonword_facts intro!: rule_keeps_intros)
  then show ?thesis by (simp add: substVariable_rules)
qed

lemma variable_money:
  assumes "\<not> ends_with_word pre"
  shows "substVariable (pre @ ''money'' @ ''('' @ rest) = substVariable pre @ ''Boolean'' @ ''('' @ substVariable rest"
proof -
  have "apply_rules variable_rules (pre @ ''money'' @ CHR ''('' # rest)
      = apply_rules variable_rules pre @ ''Boolean'' @ CHR ''('' # apply_rules variable_rules rest"
    by (rule apply_rules_keyword_lit[where before = "take 3 variable_rules"
          and after = "drop 4 variable_rules", OF _ _ _ _ _ _ _ assms])
      (auto simp: variable_rules_def identifier_facts nonword_facts intro!: rule_keeps_intros)
  then show ?thesis by (simp add: substVariable_rules)
qed

lemma variable_truestory:
  assumes "\<not> ends_with_word pre" and "\<not> word_after post"
  shows "substVariable (pre @ ''truestory'' @ post) = substVariable pre @ ''true'' @ substVariable post"
proof -
  have "apply_rules variable_rules (pre @ ''truestory'' @ post)
      = apply_rules variable_rules pre @ ''true'' @ apply_rules variable_rules post"
    by (rule apply_rules_keyword[where before = "take 8 variable_rules"
          and after = "drop 9 variable_rules", OF _ _ _ _ _ assms])
      (auto simp: variable_rules_def identifier_facts nonword_facts intro!: rule_keeps_intros)
  then show ?thesis by (simp add: substVariable_rules)
qed

lemma variable_falsestory:
  assumes "\<not> ends_with_word pre" and "\<not> word_after post"
  shows "substVariable (pre @ ''falsestory'' @ post) = substVariable pre @ ''false'' @ substVariable post"
proof -
  have "apply_rules variable_rules (pre @ ''falsestory'' @ post)
      = apply_rules variable_rules pre @ ''false'' @ apply_rules variable_rules post"
    by (rule apply_rules_keyword[where before = "take 9 variable_rules"
          and after = "drop 10 variable_rules", OF _ _ _ _ _ assms])
      (auto simp: variable_rules_def identifier_facts nonword_facts intro!: rule_keeps_intros)
  then show ?thesis by (simp add: substVariable_rules)
qed

lemma variable_truth:
  assumes "\<not> ends_with_word pre" and "\<not> word_after post"
  shows "substVariable (pre @ ''truth'' @ post) = substVariable pre @ ''true'' @ substVariable post"
proof -
  have "apply_rules variable_rules (pre @ ''truth'' @ post)
      = apply_rules variable_rules pre @ ''true'' @ apply_rules variable_rules post"
    by (rule apply_rules_keyword[where before = "take 10 variable_rules"
          and after = "drop 11 variable_rules", OF _ _ _ _ _ assms])
      (auto simp: variable_rules_def identifier_facts nonword_facts intro!: rule_keeps_intros)
  then show ?thesis by (simp add: substVariable_rules)
qed

lemma variable_lie:
  assumes "\<not> ends_with_word pre" and "\<not> word_after post"
  shows "substVariable (pre @ ''lie'' @ post) = substVariable pre @ ''false'' @ substVariable post"
proof -
  have "apply_rules variable_rules (pre @ ''lie'' @ post)
      = apply_rules variable_rules pre @ ''false'' @ apply_rules variable_rules post"
    by (rule apply_rules_keyword[where before = "take 11 variable_rules"
          and after = "drop 12 variable_rules", OF _ _ _ _ _ assms])
      (auto simp: variable_rules_def identifier_facts nonword_facts intro!: rule_keeps_intros)
  then show ?thesis by (simp add: substVariable_rules)
qed

lemma variable_universe:
  assumes "\<not> ends_with_word pre" and "\<not> word_after post"
  shows "substVariable (pre @ ''universe'' @ post) = substVariable pre @ ''null'' @ substVariable post"
proof -
  have "apply_rules variable_rules (pre @ ''universe'' @ post)
      = apply_rules variable_rules pre @ ''null'' @ apply_rules variable_rules post"
    by (rule apply_rules_keyword[where before = "take 12 variable_rules"
          and after = "drop 13 variable_rules", OF _ _ _ _ _ assms])
      (auto simp: variable_rules_def identifier_facts nonword_facts intro!: rule_keeps_intros)
  then show ?thesis by (simp add: substVariable_rules)
qed

lemma variable_alibi:
  assumes "\<not> ends_with_word pre" and "\<not> word_after post"
  shows "substVariable (pre @ ''alibi'' @ post) = substVariable pre @ ''null'' @ substVariable post"
proof -
  have "apply_rules variable_rules (pre @ ''alibi'' @ post)
      = apply_rules variable_rules pre @ ''null'' @ apply_rules variable_rules post"
    by (rule apply_rules_keyword[where before = "take 13 variable_rules"
          and after = "drop 14 variable_rules", OF _ _ _ _ _ assms])
      (auto simp: variable_rules_def identifier_facts nonword_facts intro!: rule_keeps_intros)
  then show ?thesis by (simp add: substVariable_rules)
qed

lemma expression_theory:
  assumes "\<not> ends_with_word pre"
  shows "substExpression (pre @ ''theory'' @ ''('' @ rest) = substExpression pre @ ''Number'' @ ''('' @ substExpression rest"
proof -
  have "apply_rules expression_rules (pre @ ''theory'' @ CHR ''('' # rest)
      = apply_rules expression_rules pre @ ''Number'' @ CHR ''('' # apply_rules expression_rules rest"
    by (rule apply_rules_keyword_lit[where before = "take 3 expression_rules"
          and after = "drop 4 expression_rules", OF _ _ _ _ _ _ _ assms])
      (auto simp: expression_rules_def identifier_facts nonword_facts intro!: rule_keeps_intros)
  then show ?thesis by (simp add: substExpression_rules)
qed

lemma expression_risk:
  assumes "\<not> ends_with_word pre"
  shows "substExpression (pre @ ''risk'' @ ''('' @ rest) = substExpression pre @ ''parseFloat'' @ ''('' @ substExpression rest"
proof -
  have "apply_rules expression_rules (pre @ ''risk'' @ CHR ''('' # rest)
      = apply_rules expression_rules pre @ ''parseFloat'' @ CHR ''('' # apply_rules expression_rules rest"
    by (rule apply_rules_keyword_lit[where before = "take 4 expression_rules"
          and after = "drop 5 expression_rules", OF _ _ _ _ _ _ _ assms])
      (auto simp: expression_rules_def identifier_facts nonword_facts intro!: rule_keeps_intros)
  then show ?thesis by (simp add: substExpression_rules)
qed

lemma expression_ghost:
  assumes "\<not> ends_with_word pre"
  shows "substExpression (pre @ ''ghost'' @ ''('' @ rest) = substExpression pre @ ''String'' @ ''('' @ substExpression rest"
proof -
  have "apply_rules expression_rules (pre @ ''ghost'' @ CHR ''('' # rest)
      = apply_rules expression_rules pre @ ''String'' @ CHR ''('' # apply_rules expression_rules rest"
    by (rule apply_rules_keyword_lit[where before = "take 5 expression_rules"
          and after = "drop 6 expression_rules", OF _ _ _ _ _ _ _ assms])
      (auto simp: expression_rules_def identifier_facts nonword_facts intro!: rule_keeps_intros)
  then show ?thesis by (simp add: substExpression_rules)
qed

lemma expression_money:
  assumes "\<not> ends_with_word pre"
  shows "substExpression (pre @ ''money'' @ ''('' @ rest) = substExpression pre @ ''Boolean'' @ ''('' @ substExpression rest"
proof -
  have "apply_rules expression_rules (pre @ ''money'' @ CHR ''('' # rest)
      = apply_rules expression_rules pre @ ''Boolean'' @ CHR ''('' # apply_rules expression_rules rest"
    by (rule apply_rules_keyword_lit[where before = "take 6 expression_rules"
          and after = "drop 7 expression_rules", OF _ _ _ _ _ _ _ assms])
      (auto simp: expression_rules_def identifier_facts nonword_facts intro!: rule_keeps_intros)
  then show ?thesis by (simp add: substExpression_rules)
qed

lemma expression_truestory:
  assumes "\<not> ends_with_word pre" and "\<not> word_after post"
  shows "substExpression (pre @ ''truestory'' @ post) = substExpression pre @ ''true'' @ substExpression post"
proof -
  have "apply_rules expression_rules (pre @ ''truestory'' @ post)
      = apply_rules expression_rules pre @ ''true'' @ apply_rules expression_rules post"
    by (rule apply_rules_keyword[where before = "take 7 expression_rules"
          and after = "drop 8 expression_rules", OF _ _ _ _ _ assms])
      (auto simp: expression_rules_def identifier_facts nonword_facts intro!: rule_keeps_intros)
  then show ?thesis by (simp add: substExpression_rules)
qed

lemma expression_falsestory:
  assumes "\<not> ends_with_word pre" and "\<not> word_after post"
  shows "substExpression (pre @ ''falsestory'' @ post) = substExpression pre @ ''false'' @ substExpression post"
proof -
  have "apply_rules expression_rules (pre @ ''falsestory'' @ post)
      = apply_rules expression_rules pre @ ''false'' @ apply_rules expression_rules post"
    by (rule apply_rules_keyword[where before = "take 8 expression_rules"
          and after = "drop 9 expression_rules", OF _ _ _ _ _ assms])
      (auto simp: expression_rules_def identifier_facts nonword_facts intro!: rule_keeps_intros)
  then show ?thesis by (simp add: substExpression_rules)
qed

text \<open>The rules of an expression line leave every identifier alone that is none of their nine keywords.\<close>

lemma expression_rules_keep:
  assumes "w \<notin> set [''files'', ''suicide'', ''escape'', ''theory'', ''risk'', ''ghost'', ''money'',
                     ''truestory'', ''falsestory'']"
  shows "list_all (rule_keeps w) expression_rules"
  using assms
  by (auto simp: expression_rules_def identifier_facts nonword_facts intro!: rule_keeps_intros)

lemma expression_keeps:
  assumes "is_identifier w"
    and "w \<notin> set [''files'', ''suicide'', ''escape'', ''theory'', ''risk'', ''ghost'', ''money'',
                   ''truestory'', ''falsestory'']"
    and "\<not> ends_with_word pre" and "\<not> word_after post"
  shows "substExpression (pre @ w @ post) = substExpression pre @ w @ substExpression post"
proof -
  have "splits_at w (pre @ w @ post) pre post" using assms(3,4) by (simp add: splits_at_def)
  from apply_rules_splits[OF assms(1) expression_rules_keep[OF assms(2)] this]
  show ?thesis by (simp add: splits_at_def substExpression_rules)
qed

text \<open>
  C3, as stated: the synonyms \<open>truth\<close> and \<open>universe\<close> are rewritten on a variable line
  and are not on an expression line.
\<close>

theorem same_substitutions_counterexample:
  "toJavaScript (parse ''x = truth'') = ''const x = true;''
   \<and> toJavaScript (parse ''files(truth)'') = ''console.log(truth);''
   \<and> toJavaScript (parse ''y = universe'') = ''const y = null;''
   \<and> toJavaScript (parse ''files(universe)'') = ''console.log(universe);''"
  by code_simp

text \<open>
  C3, amended: where a type-constructor name stands before an opening parenthesis, and
  where \<open>truestory\<close> or \<open>falsestory\<close> stands as a whole word, a variable line and an
  expression line rewrite it in the same way, to the conversion function and to the
  boolean literal. The synonyms \<open>truth\<close>, \<open>lie\<close>, \<open>universe\<close> and \<open>alibi\<close> are
  rewritten on a variable line and are left as they are on an expression line.
\<close>

theorem substitutions_of_both_line_types:
  assumes "\<not> ends_with_word pre" and "\<not> word_after post"
  shows
    "(\<forall>(kw, fn) \<in> set [(''theory'', ''Number''), (''risk'', ''parseFloat''),
                        (''ghost'', ''String''), (''money'', ''Boolean'')].
        substVariable (pre @ kw @ ''('' @ rest) = substVariable pre @ fn @ ''('' @ substVariable rest \<and>
        substExpression (pre @ kw @ ''('' @ rest)
          = substExpression pre @ fn @ ''('' @ substExpression rest)
     \<and> (\<forall>(kw, lit) \<in> set [(''truestory'', ''true''), (''falsestory'', ''false'')].
        substVariable (pre @ kw @ post) = substVariable pre @ lit @ substVariable post \<and>
        substExpression (pre @ kw @ post) = substExpression pre @ lit @ substExpression post)
     \<and> (\<forall>(kw, lit) \<in> set [(''truth'', ''true''), (''lie'', ''false''),
                          (''universe'', ''null''), (''alibi'', ''null'')].
        substVariable (pre @ kw @ post) = substVariable pre @ lit @ substVariable post \<and>
        substExpression (pre @ kw @ post) = substExpression pre @ kw @ substExpression post)"
proof -
  note v = variable_theory[OF assms(1)] variable_risk[OF assms(1)] variable_ghost[OF assms(1)]
    variable_money[OF assms(1)] variable_truestory[OF assms] variable_falsestory[OF assms]
    variable_truth[OF assms] variable_lie[OF assms] variable_universe[OF assms]
    variable_alibi[OF assms]
  note e = expression_theory[OF assms(1)] expression_risk[OF assms(1)]
    expression_ghost[OF assms(1)] expression_money[OF assms(1)]
    expression_truestory[OF assms] expression_falsestory[OF assms]
  have k: "substExpression (pre @ ''truth'' @ post) = substExpression pre @ ''truth'' @ substExpression post"
    "substExpression (pre @ ''lie'' @ post) = substExpression pre @ ''lie'' @ substExpression post"
    "substExpression (pre @ ''universe'' @ post) = substExpression pre @ ''universe'' @ substExpression post"
    "substExpression (pre @ ''alibi'' @ post) = substExpression pre @ ''alibi'' @ substExpression post"
    by (rule expression_keeps[OF _ _ assms]; simp add: identifier_facts)+
  show ?thesis using v e k by simp
qed

theorem substitutions_of_both_line_types_witness:
  "substVariable ''x = money(truestory)'' = ''x = Boolean(true)''
   \<and> substExpression ''x = money(truestory)'' = ''x = Boolean(true)''
   \<and> substVariable ''deal(alibi)'' = ''deal(null)''
   \<and> substExpression ''deal(alibi)'' = ''deal(alibi)''"
proof -
  have h1: "\<not> ends_with_word ''x = ''" "\<not> ends_with_word ''(''" "\<not> ends_with_word ''deal(''"
    by (simp_all add: ends_with_word_def is_word_def)
  have h2: "\<not> word_after '')''" by (simp add: word_after_def is_word_def)
  have e: "substVariable ''x = '' = ''x = ''" "substExpression ''x = '' = ''x = ''"
    "substVariable '')'' = '')''" "substExpression '')'' = '')''"
    "substVariable ''deal('' = ''deal(''" "substExpression ''deal('' = ''deal(''"
    by code_simp+
  have a: "substVariable (''x = '' @ ''money'' @ ''('' @ ''truestory)'')
        = ''x = '' @ ''Boolean'' @ ''('' @ substVariable ''truestory)''"
      "substExpression (''x = '' @ ''money'' @ ''('' @ ''truestory)'')
        = ''x = '' @ ''Boolean'' @ ''('' @ substExpression ''truestory)''"
    using substitutions_of_both_line_types[OF h1(1) h2, of "''truestory)''"] unfolding e by simp_all
  have b: "substVariable ([] @ ''truestory'' @ '')'') = substVariable [] @ ''true'' @ '')''"
      "substExpression ([] @ ''truestory'' @ '')'') = substExpression [] @ ''true'' @ '')''"
    using substitutions_of_both_line_types[of "[]" "'')''" "[]"] h2 unfolding e
    by (simp_all add: ends_with_word_def)
  have n: "substVariable [] = []" "substExpression [] = []" by code_simp+
  have c: "substVariable (''deal('' @ ''alibi'' @ '')'') = ''deal('' @ ''null'' @ '')''"
      "substExpression (''deal('' @ ''alibi'' @ '')'') = ''deal('' @ ''alibi'' @ '')''"
    using substitutions_of_both_line_types[OF h1(3) h2, of "[]"] unfolding e by simp_all
  show ?thesis using a b c n by simp
qed

end
